theory Spec2Isabelle
  imports Main
begin

section \<open>Storage, objects and failures\<close>

text \<open>
  The program is the header \<^verbatim>\<open>MyVector/vector.h\<close>: the class template
  \<^verbatim>\<open>RawMemory<T>\<close> (a block of raw storage) and the class template
  \<^verbatim>\<open>Vector<T>\<close> built on it.

  A slot of a storage block is either raw memory or holds a live object of the element
  type. A block lives in the heap under an address; \<^verbatim>\<open>T*\<close> is a block address
  (or \<^verbatim>\<open>nullptr\<close>) with an element offset.
\<close>

datatype 'a slot = Raw | Live 'a

text \<open>
  \<open>Thrown\<close>: a C++ exception (from a constructor or assignment of the element type, or
  \<^verbatim>\<open>std::bad_alloc\<close>). \<open>Abort\<close>: a failed \<^verbatim>\<open>assert\<close> or undefined
  behaviour (an access outside a block, to a raw slot, or through an invalid pointer);
  nothing is unwound after it.
\<close>

datatype exn = Thrown | Abort

type_synonym ptr = "nat option \<times> nat"

subsection \<open>Integer types\<close>

text \<open>
  \<^verbatim>\<open>size_t\<close> has 64 bits and \<^verbatim>\<open>int\<close> has 32. A value of type
  \<^verbatim>\<open>size_t\<close> is kept as a natural number; \<open>size_t k\<close> is the value of that type
  that an arithmetic result or a converted integer \<open>k\<close> becomes (the arithmetic of
  \<^verbatim>\<open>size_t\<close> wraps around). \<open>to_int k\<close> is the \<^verbatim>\<open>int\<close> that \<open>k\<close> is
  narrowed to where the code passes a \<^verbatim>\<open>size_t\<close> or a pointer difference for an
  \<^verbatim>\<open>int\<close>.
\<close>

definition size_t :: "int \<Rightarrow> nat" where
  "size_t k = nat (k mod 2 ^ 64)"

definition to_int :: "int \<Rightarrow> int" where
  "to_int k = (k + 2 ^ 31) mod 2 ^ 32 - 2 ^ 31"

text \<open>
  The private members \<^verbatim>\<open>buffer_\<close>, \<^verbatim>\<open>capacity_\<close>, \<^verbatim>\<open>data_\<close> and
  \<^verbatim>\<open>size_\<close> are the fields \<open>m_buffer\<close>, \<open>m_capacity\<close>, \<open>m_data\<close> and
  \<open>m_size\<close>.
\<close>

record RawMemory =
  m_buffer :: "nat option"
  m_capacity :: nat

record Vector =
  m_data :: RawMemory
  m_size :: nat

text \<open>
  What the code asks of the element type \<^verbatim>\<open>T\<close>: \<^verbatim>\<open>sizeof(T)\<close>, the two
  type traits read by \<^verbatim>\<open>MoveOrCopyUninitialized\<close>, the value of a value-initialised object
  (\<^verbatim>\<open>T()\<close>), the value of a default-initialised object (\<^verbatim>\<open>new (p) T\<close>),
  and the value a moved-from object is left with.
\<close>

record 'a traits =
  size_of :: nat
  nothrow_move_constructible :: bool
  copy_constructible :: bool
  value_initialized :: 'a
  default_initialized :: 'a
  moved_from :: "'a \<Rightarrow> 'a"

text \<open>
  The machine state: the heap of storage blocks (\<open>brk\<close> is the next fresh address), the
  \<^verbatim>\<open>Vector\<close> objects (an object is named by its index, so that two references can be
  compared as \<^verbatim>\<open>this != &other\<close> does), the objects whose storage was released while
  they were still alive (their destructors never ran), and \<open>fuse\<close>: \<open>Some k\<close> when the
  \<open>k+1\<close>-th operation that may throw (a constructor or assignment of \<^verbatim>\<open>T\<close>, an
  allocation) throws, \<open>None\<close> when none does.
\<close>

record 'a machine =
  heap :: "nat \<Rightarrow> 'a slot list option"
  brk :: nat
  objs :: "Vector list"
  leaked :: "'a list"
  fuse :: "nat option"

type_synonym ('a, 'r) M = "'a machine \<Rightarrow> (exn + 'r) \<times> 'a machine"

definition ret :: "'r \<Rightarrow> ('a, 'r) M" where
  "ret x st = (Inr x, st)"

definition raise :: "exn \<Rightarrow> ('a, 'r) M" where
  "raise e st = (Inl e, st)"

definition bnd :: "('a, 'r) M \<Rightarrow> ('r \<Rightarrow> ('a, 'q) M) \<Rightarrow> ('a, 'q) M" where
  "bnd m f st = (case m st of (Inl e, st') \<Rightarrow> (Inl e, st') | (Inr x, st') \<Rightarrow> f x st')"

definition seqn :: "('a, 'r) M \<Rightarrow> ('a, 'q) M \<Rightarrow> ('a, 'q) M" where
  "seqn m n = bnd m (\<lambda>_. n)"

text \<open>
  \<^verbatim>\<open>try { m } catch (...) { h; throw; }\<close>, and also the unwinding of a scope whose
  local object has the destructor \<open>h\<close>.
\<close>

definition on_throw :: "('a, 'r) M \<Rightarrow> ('a, unit) M \<Rightarrow> ('a, 'r) M" where
  "on_throw m h st =
     (case m st of
        (Inl Thrown, st') \<Rightarrow>
          (case h st' of (Inl e, st'') \<Rightarrow> (Inl e, st'') | (Inr _, st'') \<Rightarrow> (Inl Thrown, st''))
      | (Inl Abort, st') \<Rightarrow> (Inl Abort, st')
      | (Inr x, st') \<Rightarrow> (Inr x, st'))"

definition tick :: "('a, unit) M" where
  "tick st =
     (case fuse st of
        None \<Rightarrow> (Inr (), st)
      | Some 0 \<Rightarrow> (Inl Thrown, st\<lparr>fuse := None\<rparr>)
      | Some (Suc k) \<Rightarrow> (Inr (), st\<lparr>fuse := Some k\<rparr>))"

text \<open>\<^verbatim>\<open>for (size_t i = 0; i < n; i++) body(i)\<close> is \<open>for_loop 0 n body\<close>.\<close>

fun for_loop :: "nat \<Rightarrow> nat \<Rightarrow> (nat \<Rightarrow> ('a, unit) M) \<Rightarrow> ('a, unit) M" where
  "for_loop i 0 body = ret ()"
| "for_loop i (Suc k) body = seqn (body i) (for_loop (Suc i) k body)"

subsection \<open>Pointers and slots\<close>

definition ptr_plus :: "ptr \<Rightarrow> nat \<Rightarrow> ptr" where
  "ptr_plus p k = (fst p, snd p + k)"

text \<open>A pointer plus an \<^verbatim>\<open>int\<close>; no pointer lies before its block.\<close>

definition ptr_add :: "ptr \<Rightarrow> int \<Rightarrow> ('a, ptr) M" where
  "ptr_add p k = (if 0 \<le> int (snd p) + k then ret (fst p, nat (int (snd p) + k)) else raise Abort)"

definition ptr_minus :: "ptr \<Rightarrow> nat \<Rightarrow> ('a, ptr) M" where
  "ptr_minus p k = (if k \<le> snd p then ret (fst p, snd p - k) else raise Abort)"

definition ptr_diff :: "ptr \<Rightarrow> ptr \<Rightarrow> ('a, nat) M" where
  "ptr_diff p q = (if fst p = fst q \<and> snd q \<le> snd p then ret (snd p - snd q) else raise Abort)"

definition slot_at :: "ptr \<Rightarrow> 'a machine \<Rightarrow> 'a slot option" where
  "slot_at p st =
     (case fst p of
        None \<Rightarrow> None
      | Some a \<Rightarrow>
          (case heap st a of
             None \<Rightarrow> None
           | Some blk \<Rightarrow> if snd p < length blk then Some (blk ! snd p) else None))"

definition put_slot :: "ptr \<Rightarrow> 'a slot \<Rightarrow> 'a machine \<Rightarrow> 'a machine" where
  "put_slot p s st =
     (case fst p of
        None \<Rightarrow> st
      | Some a \<Rightarrow>
          (case heap st a of
             None \<Rightarrow> st
           | Some blk \<Rightarrow> st\<lparr>heap := (heap st)(a \<mapsto> blk[snd p := s])\<rparr>))"

definition load :: "ptr \<Rightarrow> ('a, 'a) M" where
  "load p st = (case slot_at p st of Some (Live v) \<Rightarrow> (Inr v, st) | _ \<Rightarrow> (Inl Abort, st))"

text \<open>
  The end of a constructor call \<^verbatim>\<open>new (p) T(...)\<close>: the slot holds the new
  object. An object that was alive there is overwritten without its destructor.
\<close>

definition emplace_obj :: "ptr \<Rightarrow> 'a \<Rightarrow> ('a, unit) M" where
  "emplace_obj p v st =
     (case slot_at p st of
        None \<Rightarrow> (Inl Abort, st)
      | Some Raw \<Rightarrow> (Inr (), put_slot p (Live v) st)
      | Some (Live old) \<Rightarrow> (Inr (), (put_slot p (Live v) st)\<lparr>leaked := leaked st @ [old]\<rparr>))"

definition assign_obj :: "ptr \<Rightarrow> 'a \<Rightarrow> ('a, unit) M" where
  "assign_obj p v st =
     (case slot_at p st of
        Some (Live _) \<Rightarrow> (Inr (), put_slot p (Live v) st)
      | _ \<Rightarrow> (Inl Abort, st))"

subsection \<open>The special member functions of the element type\<close>

text \<open>
  An argument of type \<^verbatim>\<open>const T&\<close>: a reference to an object outside the storage
  blocks (a variable or a temporary of the caller) that holds the value \<open>v\<close>, or a
  reference to the object in a slot, which is read when the reference is used.
\<close>

datatype 'a arg = Val 'a | Ref ptr

definition deref :: "'a arg \<Rightarrow> ('a, 'a) M" where
  "deref a = (case a of Val v \<Rightarrow> ret v | Ref q \<Rightarrow> load q)"

text \<open>\<^verbatim>\<open>new (p) T(arg)\<close>: the copy constructor.\<close>

definition construct_from :: "ptr \<Rightarrow> 'a arg \<Rightarrow> ('a, unit) M" where
  "construct_from p a = bnd (deref a) (\<lambda>v. seqn tick (emplace_obj p v))"

definition copy_construct :: "ptr \<Rightarrow> ptr \<Rightarrow> ('a, unit) M" where
  "copy_construct p q = bnd (load q) (\<lambda>v. seqn tick (emplace_obj p v))"

definition move_construct :: "'a traits \<Rightarrow> ptr \<Rightarrow> ptr \<Rightarrow> ('a, unit) M" where
  "move_construct tr p q =
     bnd (load q) (\<lambda>v.
       seqn (if nothrow_move_constructible tr then ret () else tick)
         (seqn (emplace_obj p v) (assign_obj q (moved_from tr v))))"

definition copy_assign :: "ptr \<Rightarrow> ptr \<Rightarrow> ('a, unit) M" where
  "copy_assign p q = bnd (load q) (\<lambda>v. seqn tick (assign_obj p v))"

definition move_assign :: "'a traits \<Rightarrow> ptr \<Rightarrow> ptr \<Rightarrow> ('a, unit) M" where
  "move_assign tr p q =
     bnd (load q) (\<lambda>v.
       seqn tick (seqn (assign_obj p v) (assign_obj q (moved_from tr v))))"

definition value_construct :: "'a traits \<Rightarrow> ptr \<Rightarrow> ('a, unit) M" where
  "value_construct tr p = seqn tick (emplace_obj p (value_initialized tr))"

definition default_construct :: "'a traits \<Rightarrow> ptr \<Rightarrow> ('a, unit) M" where
  "default_construct tr p = seqn tick (emplace_obj p (default_initialized tr))"

text \<open>\<^verbatim>\<open>Vector::Destroy\<close>: \<^verbatim>\<open>buf->~T()\<close>.\<close>

definition Destroy :: "ptr \<Rightarrow> ('a, unit) M" where
  "Destroy buf st =
     (case slot_at buf st of
        Some (Live _) \<Rightarrow> (Inr (), put_slot buf Raw st)
      | _ \<Rightarrow> (Inl Abort, st))"

definition DestroyN :: "ptr \<Rightarrow> nat \<Rightarrow> ('a, unit) M" where
  "DestroyN buf n = for_loop 0 n (\<lambda>i. Destroy (ptr_plus buf i))"

definition CopyConstruct :: "ptr \<Rightarrow> 'a arg \<Rightarrow> ('a, unit) M" where
  "CopyConstruct buf elem = construct_from buf elem"

subsection \<open>The algorithms of the standard library the code calls\<close>

text \<open>
  The \<^verbatim>\<open>std::uninitialized_*_n\<close> family: build \<open>n\<close> objects in raw slots; when
  building the \<open>i\<close>-th throws, the \<open>i\<close> objects built so far are destroyed and the
  exception goes on.
\<close>

fun uninit_loop :: "(nat \<Rightarrow> ('a, unit) M) \<Rightarrow> (nat \<Rightarrow> ('a, unit) M) \<Rightarrow> nat \<Rightarrow> nat \<Rightarrow> ('a, unit) M" where
  "uninit_loop build undo i 0 = ret ()"
| "uninit_loop build undo i (Suc k) =
     seqn (on_throw (build i) (for_loop 0 i undo)) (uninit_loop build undo (Suc i) k)"

definition uninitialized_copy_n :: "ptr \<Rightarrow> nat \<Rightarrow> ptr \<Rightarrow> ('a, unit) M" where
  "uninitialized_copy_n first n d_first =
     uninit_loop (\<lambda>i. copy_construct (ptr_plus d_first i) (ptr_plus first i))
       (\<lambda>i. Destroy (ptr_plus d_first i)) 0 n"

definition uninitialized_move_n :: "'a traits \<Rightarrow> ptr \<Rightarrow> nat \<Rightarrow> ptr \<Rightarrow> ('a, unit) M" where
  "uninitialized_move_n tr first n d_first =
     uninit_loop (\<lambda>i. move_construct tr (ptr_plus d_first i) (ptr_plus first i))
       (\<lambda>i. Destroy (ptr_plus d_first i)) 0 n"

definition uninitialized_value_construct_n :: "'a traits \<Rightarrow> ptr \<Rightarrow> nat \<Rightarrow> ('a, unit) M" where
  "uninitialized_value_construct_n tr first n =
     uninit_loop (\<lambda>i. value_construct tr (ptr_plus first i))
       (\<lambda>i. Destroy (ptr_plus first i)) 0 n"

definition uninitialized_default_construct_n :: "'a traits \<Rightarrow> ptr \<Rightarrow> nat \<Rightarrow> ('a, unit) M" where
  "uninitialized_default_construct_n tr first n =
     uninit_loop (\<lambda>i. default_construct tr (ptr_plus first i))
       (\<lambda>i. Destroy (ptr_plus first i)) 0 n"

text \<open>
  One of these algorithms called with a count of type \<^verbatim>\<open>int\<close>. With a negative
  count \<open>[first, first + n)\<close> is not a range, and the behaviour is undefined.
\<close>

definition counted :: "int \<Rightarrow> (nat \<Rightarrow> ('a, unit) M) \<Rightarrow> ('a, unit) M" where
  "counted n f = (if n < 0 then raise Abort else f (nat n))"

definition copy_n :: "ptr \<Rightarrow> nat \<Rightarrow> ptr \<Rightarrow> ('a, unit) M" where
  "copy_n first n result =
     for_loop 0 n (\<lambda>i. copy_assign (ptr_plus result i) (ptr_plus first i))"

text \<open>
  \<^verbatim>\<open>std::move(first, last, d_first)\<close>, front to back (\<open>lst\<close> is the
  parameter \<^verbatim>\<open>last\<close>).
\<close>

definition std_move :: "'a traits \<Rightarrow> ptr \<Rightarrow> ptr \<Rightarrow> ptr \<Rightarrow> ('a, unit) M" where
  "std_move tr first lst d_first =
     bnd (ptr_diff lst first) (\<lambda>n.
       for_loop 0 n (\<lambda>i. move_assign tr (ptr_plus d_first i) (ptr_plus first i)))"

text \<open>\<^verbatim>\<open>std::move_backward(first, last, d_last)\<close>, back to front.\<close>

definition move_backward :: "'a traits \<Rightarrow> ptr \<Rightarrow> ptr \<Rightarrow> ptr \<Rightarrow> ('a, unit) M" where
  "move_backward tr first lst d_last =
     bnd (ptr_diff lst first) (\<lambda>n.
       for_loop 0 n (\<lambda>i.
         bnd (ptr_minus d_last (Suc i)) (\<lambda>d.
           bnd (ptr_minus lst (Suc i)) (\<lambda>s. move_assign tr d s))))"

section \<open>RawMemory\<close>

text \<open>
  \<^verbatim>\<open>Allocate\<close>: \<^verbatim>\<open>operator new(n * sizeof(T))\<close> for \<open>n \<noteq> 0\<close>,
  \<^verbatim>\<open>nullptr\<close> otherwise. The allocation may throw. The byte count is computed in
  \<^verbatim>\<open>size_t\<close>; the fresh block has as many raw slots as objects of \<^verbatim>\<open>T\<close>
  fit into that many bytes, which is \<open>n\<close> unless the product wrapped around.
\<close>

definition Allocate :: "'a traits \<Rightarrow> nat \<Rightarrow> ('a, nat option) M" where
  "Allocate tr n =
     (if n \<noteq> 0
      then seqn tick (\<lambda>st. (Inr (Some (brk st)),
             st\<lparr>heap := (heap st)(brk st \<mapsto>
                  replicate (size_t (int n * int (size_of tr)) div size_of tr) Raw),
                brk := Suc (brk st)\<rparr>))
      else ret None)"

fun live_values :: "'a slot list \<Rightarrow> 'a list" where
  "live_values [] = []"
| "live_values (Raw # xs) = live_values xs"
| "live_values (Live v # xs) = v # live_values xs"

text \<open>
  \<^verbatim>\<open>Deallocate\<close>: \<^verbatim>\<open>operator delete(buf)\<close>. The objects still alive in the
  block are never destroyed: they are recorded in \<open>leaked\<close>.
\<close>

definition Deallocate :: "nat option \<Rightarrow> ('a, unit) M" where
  "Deallocate buf st =
     (case buf of
        None \<Rightarrow> (Inr (), st)
      | Some a \<Rightarrow>
          (case heap st a of
             None \<Rightarrow> (Inl Abort, st)
           | Some blk \<Rightarrow>
               (Inr (), st\<lparr>heap := (heap st)(a := None), leaked := leaked st @ live_values blk\<rparr>)))"

definition RawMemory_default :: RawMemory where
  "RawMemory_default = \<lparr>m_buffer = None, m_capacity = 0\<rparr>"

definition RawMemory_ctor :: "'a traits \<Rightarrow> nat \<Rightarrow> ('a, RawMemory) M" where
  "RawMemory_ctor tr capacity =
     bnd (Allocate tr capacity) (\<lambda>b. ret \<lparr>m_buffer = b, m_capacity = capacity\<rparr>)"

text \<open>
  The move constructor and the move assignment take the object \<open>other\<close> refers to (and,
  for the assignment, the object assigned to) and give both objects as they are left:
  \<open>(this, other)\<close>.
\<close>

definition RawMemory_move_ctor :: "RawMemory \<Rightarrow> RawMemory \<times> RawMemory" where
  "RawMemory_move_ctor other =
     (\<lparr>m_buffer = m_buffer other, m_capacity = m_capacity other\<rparr>,
      other\<lparr>m_buffer := None, m_capacity := 0\<rparr>)"

definition RawMemory_move_assign :: "RawMemory \<Rightarrow> RawMemory \<Rightarrow> RawMemory \<times> RawMemory" where
  "RawMemory_move_assign this other =
     (let tmp = m_buffer this;
          this = this\<lparr>m_buffer := m_buffer other\<rparr>;
          other = other\<lparr>m_buffer := tmp\<rparr>;
          this = this\<lparr>m_capacity := m_capacity other\<rparr>
      in (this, other))"

definition RawMemory_dtor :: "RawMemory \<Rightarrow> ('a, unit) M" where
  "RawMemory_dtor this = Deallocate (m_buffer this)"

definition RawMemory_plus :: "RawMemory \<Rightarrow> nat \<Rightarrow> ('a, ptr) M" where
  "RawMemory_plus this offset =
     (if offset \<le> m_capacity this then ret (m_buffer this, offset) else raise Abort)"

definition RawMemory_at :: "RawMemory \<Rightarrow> nat \<Rightarrow> ('a, ptr) M" where
  "RawMemory_at this index =
     (if index < m_capacity this then ret (m_buffer this, index) else raise Abort)"

text \<open>\<^verbatim>\<open>RawMemory::Swap\<close> of two distinct objects, giving \<open>(this, other)\<close>.\<close>

definition RawMemory_Swap :: "RawMemory \<Rightarrow> RawMemory \<Rightarrow> RawMemory \<times> RawMemory" where
  "RawMemory_Swap this other =
     (let tmp = m_buffer this;
          this = this\<lparr>m_buffer := m_buffer other\<rparr>;
          other = other\<lparr>m_buffer := tmp\<rparr>;
          tmp = m_capacity this;
          this = this\<lparr>m_capacity := m_capacity other\<rparr>;
          other = other\<lparr>m_capacity := tmp\<rparr>
      in (this, other))"

definition GetAddress :: "RawMemory \<Rightarrow> ptr" where
  "GetAddress this = (m_buffer this, 0)"

definition RawMemory_Capacity :: "RawMemory \<Rightarrow> nat" where
  "RawMemory_Capacity this = m_capacity this"

section \<open>Vector\<close>

subsection \<open>Access to the stored objects\<close>

definition this_obj :: "nat \<Rightarrow> ('a, Vector) M" where
  "this_obj this st =
     (if this < length (objs st) then (Inr (objs st ! this), st) else (Inl Abort, st))"

definition put_obj :: "nat \<Rightarrow> Vector \<Rightarrow> ('a, unit) M" where
  "put_obj this v st = (Inr (), st\<lparr>objs := (objs st)[this := v]\<rparr>)"

definition set_data :: "nat \<Rightarrow> RawMemory \<Rightarrow> ('a, unit) M" where
  "set_data this d = bnd (this_obj this) (\<lambda>v. put_obj this (v\<lparr>m_data := d\<rparr>))"

definition set_size :: "nat \<Rightarrow> nat \<Rightarrow> ('a, unit) M" where
  "set_size this n = bnd (this_obj this) (\<lambda>v. put_obj this (v\<lparr>m_size := n\<rparr>))"

definition new_obj :: "Vector \<Rightarrow> ('a, nat) M" where
  "new_obj v st = (Inr (length (objs st)), st\<lparr>objs := objs st @ [v]\<rparr>)"

definition pop_obj :: "('a, unit) M" where
  "pop_obj st = (Inr (), st\<lparr>objs := butlast (objs st)\<rparr>)"

text \<open>
  \<^verbatim>\<open>std::swap(a.f, b.f)\<close> on a field of two stored objects, which may be the same
  object: \<^verbatim>\<open>tmp = a.f; a.f = b.f; b.f = tmp\<close>.
\<close>

definition std_swap ::
  "(Vector \<Rightarrow> 'f) \<Rightarrow> ('f \<Rightarrow> Vector \<Rightarrow> Vector) \<Rightarrow> nat \<Rightarrow> nat \<Rightarrow> Vector list \<Rightarrow> Vector list" where
  "std_swap get put a b os =
     (let tmp = get (os ! a);
          os = os[a := put (get (os ! b)) (os ! a)];
          os = os[b := put tmp (os ! b)]
      in os)"

subsection \<open>Queries\<close>

definition Size :: "Vector \<Rightarrow> nat" where
  "Size v = m_size v"

definition Capacity :: "Vector \<Rightarrow> nat" where
  "Capacity v = RawMemory_Capacity (m_data v)"

definition Vector_begin :: "nat \<Rightarrow> ('a, ptr) M" where
  "Vector_begin this = bnd (this_obj this) (\<lambda>v. ret (GetAddress (m_data v)))"

definition Vector_end :: "nat \<Rightarrow> ('a, ptr) M" where
  "Vector_end this = bnd (this_obj this) (\<lambda>v. RawMemory_plus (m_data v) (m_size v))"

text \<open>\<^verbatim>\<open>operator[]\<close>: the reference \<^verbatim>\<open>T&\<close> is the element's address.\<close>

definition Vector_at :: "nat \<Rightarrow> nat \<Rightarrow> ('a, ptr) M" where
  "Vector_at this index =
     bnd (this_obj this) (\<lambda>v.
       if index < m_size v then RawMemory_at (m_data v) index else raise Abort)"

subsection \<open>Relocation\<close>

text \<open>The count \<^verbatim>\<open>pos_index\<close> is an \<^verbatim>\<open>int\<close>.\<close>

definition MoveOrCopyUninitialized :: "'a traits \<Rightarrow> ptr \<Rightarrow> int \<Rightarrow> ptr \<Rightarrow> ('a, unit) M" where
  "MoveOrCopyUninitialized tr data pos_index new_data =
     (if nothrow_move_constructible tr \<or> \<not> copy_constructible tr
      then counted pos_index (\<lambda>n. uninitialized_move_n tr data n new_data)
      else counted pos_index (\<lambda>n. uninitialized_copy_n data n new_data))"

definition Reserve :: "'a traits \<Rightarrow> nat \<Rightarrow> nat \<Rightarrow> ('a, unit) M" where
  "Reserve tr this new_capacity =
     bnd (this_obj this) (\<lambda>v.
       if new_capacity \<le> Capacity v then ret ()
       else
         bnd (RawMemory_ctor tr new_capacity) (\<lambda>new_data.
           seqn
             (on_throw
                (seqn (MoveOrCopyUninitialized tr (GetAddress (m_data v)) (to_int (int (m_size v)))
                         (GetAddress new_data))
                   (DestroyN (GetAddress (m_data v)) (m_size v)))
                (RawMemory_dtor new_data))
             (case RawMemory_Swap (m_data v) new_data of
                (d, new_data) \<Rightarrow> seqn (set_data this d) (RawMemory_dtor new_data))))"

subsection \<open>Construction, destruction, assignment\<close>

text \<open>A constructor gives the index of the object it has built.\<close>

definition Vector_ctor :: "('a, nat) M" where
  "Vector_ctor = new_obj \<lparr>m_data = RawMemory_default, m_size = 0\<rparr>"

definition Vector_sized_ctor :: "'a traits \<Rightarrow> nat \<Rightarrow> ('a, nat) M" where
  "Vector_sized_ctor tr sz =
     bnd (RawMemory_ctor tr sz) (\<lambda>d.
       seqn
         (on_throw (uninitialized_value_construct_n tr (GetAddress d) sz) (RawMemory_dtor d))
         (new_obj \<lparr>m_data = d, m_size = sz\<rparr>))"

definition Vector_copy_ctor :: "'a traits \<Rightarrow> nat \<Rightarrow> ('a, nat) M" where
  "Vector_copy_ctor tr other =
     bnd (this_obj other) (\<lambda>ov.
       bnd (RawMemory_ctor tr (m_size ov)) (\<lambda>d.
         seqn
           (on_throw (uninitialized_copy_n (GetAddress (m_data ov)) (m_size ov) (GetAddress d))
              (RawMemory_dtor d))
           (new_obj \<lparr>m_data = d, m_size = m_size ov\<rparr>)))"

definition Vector_move_ctor :: "nat \<Rightarrow> ('a, nat) M" where
  "Vector_move_ctor other =
     bnd (this_obj other) (\<lambda>ov.
       case RawMemory_move_ctor (m_data ov) of
         (d, other_data) \<Rightarrow>
           seqn (set_data other other_data)
             (seqn (set_size other 0)
                (new_obj \<lparr>m_data = d, m_size = m_size ov\<rparr>)))"

definition Vector_dtor :: "nat \<Rightarrow> ('a, unit) M" where
  "Vector_dtor this =
     bnd (this_obj this) (\<lambda>v.
       seqn (DestroyN (GetAddress (m_data v)) (m_size v)) (RawMemory_dtor (m_data v)))"

text \<open>
  \<^verbatim>\<open>Vector::Swap\<close>: \<^verbatim>\<open>data_.Swap(other.data_)\<close>, that is
  \<^verbatim>\<open>std::swap\<close> of the two members of \<^verbatim>\<open>RawMemory\<close>, then
  \<^verbatim>\<open>std::swap(size_, other.size_)\<close>.
\<close>

definition Vector_Swap :: "nat \<Rightarrow> nat \<Rightarrow> ('a, unit) M" where
  "Vector_Swap this other st =
     (if this < length (objs st) \<and> other < length (objs st)
      then
        (let os = objs st;
             os = std_swap (\<lambda>v. m_buffer (m_data v))
                    (\<lambda>b v. v\<lparr>m_data := (m_data v)\<lparr>m_buffer := b\<rparr>\<rparr>) this other os;
             os = std_swap (\<lambda>v. m_capacity (m_data v))
                    (\<lambda>c v. v\<lparr>m_data := (m_data v)\<lparr>m_capacity := c\<rparr>\<rparr>) this other os;
             os = std_swap m_size (\<lambda>n v. v\<lparr>m_size := n\<rparr>) this other os
         in (Inr (), st\<lparr>objs := os\<rparr>))
      else (Inl Abort, st))"

text \<open>
  \<^verbatim>\<open>operator=(const Vector& other)\<close>. The temporary \<^verbatim>\<open>other_copy\<close> is a
  stored object for as long as its scope lasts.
\<close>

definition Vector_copy_assign :: "'a traits \<Rightarrow> nat \<Rightarrow> nat \<Rightarrow> ('a, unit) M" where
  "Vector_copy_assign tr this other =
     seqn
       (if this \<noteq> other then
          bnd (this_obj this) (\<lambda>v.
            bnd (this_obj other) (\<lambda>ov.
              if m_size ov > RawMemory_Capacity (m_data v) then
                bnd (Vector_copy_ctor tr other) (\<lambda>other_copy.
                  seqn (Vector_Swap this other_copy)
                    (seqn (Vector_dtor other_copy) pop_obj))
              else
                (let min_size = min (m_size ov) (m_size v) in
                 seqn (copy_n (GetAddress (m_data ov)) min_size (GetAddress (m_data v)))
                   (if m_size ov < m_size v then
                      DestroyN (ptr_plus (GetAddress (m_data v)) min_size) (m_size v - min_size)
                    else
                      uninitialized_copy_n (ptr_plus (GetAddress (m_data ov)) min_size)
                        (m_size ov - m_size v) (ptr_plus (GetAddress (m_data v)) min_size)))))
        else ret ())
       (bnd (this_obj other) (\<lambda>ov. set_size this (m_size ov)))"

definition Vector_move_assign :: "nat \<Rightarrow> nat \<Rightarrow> ('a, unit) M" where
  "Vector_move_assign this other = Vector_Swap this other"

subsection \<open>Size changes at the end\<close>

definition Resize :: "'a traits \<Rightarrow> nat \<Rightarrow> nat \<Rightarrow> ('a, unit) M" where
  "Resize tr this new_size =
     bnd (this_obj this) (\<lambda>v.
       if new_size > m_size v then
         seqn (if new_size > RawMemory_Capacity (m_data v) then Reserve tr this new_size else ret ())
           (bnd (this_obj this) (\<lambda>v.
              bnd (RawMemory_plus (m_data v) (m_size v)) (\<lambda>p.
                seqn (uninitialized_default_construct_n tr p (new_size - m_size v))
                  (set_size this new_size))))
       else
         seqn (DestroyN (ptr_plus (GetAddress (m_data v)) new_size) (m_size v - new_size))
           (set_size this new_size))"

text \<open>
  \<^verbatim>\<open>EmplaceBack(args...)\<close> with the pack that \<^verbatim>\<open>PushBack(const T&)\<close> and
  \<^verbatim>\<open>Insert(pos, const T&)\<close> pass: one reference \<open>arg\<close> to an object of type
  \<^verbatim>\<open>T\<close>, from which \<^verbatim>\<open>T(std::forward<Types>(args)...)\<close> copies. The result
  \<^verbatim>\<open>T&\<close> is the element's address.
\<close>

definition EmplaceBack :: "'a traits \<Rightarrow> nat \<Rightarrow> 'a arg \<Rightarrow> ('a, ptr) M" where
  "EmplaceBack tr this arg =
     bnd (this_obj this) (\<lambda>v.
       if m_size v = Capacity v then
         bnd (RawMemory_ctor tr (if m_size v = 0 then 1 else size_t (int (m_size v) * 2)))
           (\<lambda>new_data.
           seqn
             (on_throw
                (bnd (RawMemory_plus new_data (m_size v)) (\<lambda>p.
                   seqn (construct_from p arg)
                     (seqn
                        (MoveOrCopyUninitialized tr (GetAddress (m_data v))
                           (to_int (int (m_size v))) (GetAddress new_data))
                        (DestroyN (GetAddress (m_data v)) (m_size v)))))
                (RawMemory_dtor new_data))
             (case RawMemory_Swap (m_data v) new_data of
                (d, new_data) \<Rightarrow>
                  seqn (set_data this d)
                    (seqn (set_size this (size_t (int (m_size v) + 1)))
                       (bnd (RawMemory_at d (size_t (int (size_t (int (m_size v) + 1)) - 1)))
                          (\<lambda>r. seqn (RawMemory_dtor new_data) (ret r))))))
       else
         bnd (RawMemory_plus (m_data v) (m_size v)) (\<lambda>p.
           seqn (construct_from p arg)
             (seqn (set_size this (size_t (int (m_size v) + 1)))
                (RawMemory_at (m_data v) (size_t (int (size_t (int (m_size v) + 1)) - 1))))))"

text \<open>\<^verbatim>\<open>PushBack(const T& value)\<close>.\<close>

definition PushBack :: "'a traits \<Rightarrow> nat \<Rightarrow> 'a arg \<Rightarrow> ('a, unit) M" where
  "PushBack tr this val = seqn (EmplaceBack tr this val) (ret ())"

definition PopBack :: "nat \<Rightarrow> ('a, unit) M" where
  "PopBack this =
     bnd (this_obj this) (\<lambda>v.
       if Size v \<noteq> 0 then
         bnd (RawMemory_plus (m_data v) (m_size v - 1)) (\<lambda>p.
           seqn (Destroy p) (set_size this (m_size v - 1)))
       else ret ())"

subsection \<open>Insertion and removal inside the sequence\<close>

text \<open>
  The parameter \<^verbatim>\<open>pos_index\<close> is an \<^verbatim>\<open>int\<close>: it is converted to
  \<^verbatim>\<open>size_t\<close> where it is an offset into a \<^verbatim>\<open>RawMemory\<close> or the count of
  \<^verbatim>\<open>DestroyN\<close>, and \<^verbatim>\<open>size_ - pos_index\<close> is computed in \<^verbatim>\<open>size_t\<close>
  and narrowed to the \<^verbatim>\<open>int\<close> count of \<^verbatim>\<open>MoveOrCopyUninitialized\<close>.
\<close>

definition InsertionWithRelocation :: "'a traits \<Rightarrow> nat \<Rightarrow> int \<Rightarrow> 'a arg \<Rightarrow> ('a, unit) M" where
  "InsertionWithRelocation tr this pos_index arg =
     bnd (this_obj this) (\<lambda>v.
       bnd (RawMemory_ctor tr (if m_size v = 0 then 1 else size_t (int (m_size v) * 2)))
         (\<lambda>new_data.
         seqn
           (on_throw
              (bnd (RawMemory_plus new_data (size_t pos_index)) (\<lambda>p.
                 seqn (construct_from p arg)
                   (seqn
                      (on_throw
                         (MoveOrCopyUninitialized tr (GetAddress (m_data v)) pos_index
                            (GetAddress new_data))
                         (bnd (RawMemory_plus (m_data v) (size_t pos_index)) Destroy))
                      (seqn
                         (on_throw
                            (bnd (RawMemory_plus (m_data v) (size_t pos_index)) (\<lambda>src.
                               bnd (RawMemory_plus new_data (size_t pos_index)) (\<lambda>dst.
                                 MoveOrCopyUninitialized tr src
                                   (to_int (int (size_t (int (m_size v) - pos_index))))
                                   (ptr_plus dst 1))))
                            (DestroyN (GetAddress new_data) (size_t pos_index)))
                         (DestroyN (GetAddress (m_data v)) (m_size v))))))
              (RawMemory_dtor new_data))
           (case RawMemory_Swap (m_data v) new_data of
              (d, new_data) \<Rightarrow> seqn (set_data this d) (RawMemory_dtor new_data))))"

text \<open>
  \<^verbatim>\<open>data_[pos_index] = T(args...)\<close>: the temporary is copied from the argument,
  the element is move-assigned from it, the temporary is destroyed.
\<close>

definition InsertionWithoutRelocation :: "'a traits \<Rightarrow> nat \<Rightarrow> int \<Rightarrow> 'a arg \<Rightarrow> ('a, unit) M" where
  "InsertionWithoutRelocation tr this pos_index arg =
     bnd (this_obj this) (\<lambda>v.
       bnd (Vector_end this) (\<lambda>e.
         bnd (ptr_minus e 1) (\<lambda>lst.
           seqn (move_construct tr e lst)
             (bnd (Vector_begin this) (\<lambda>b.
                bnd (ptr_add b pos_index) (\<lambda>first.
                  seqn (move_backward tr first lst e)
                    (bnd (deref arg) (\<lambda>x.
                       seqn tick
                         (bnd (RawMemory_at (m_data v) (size_t pos_index)) (\<lambda>p.
                            seqn tick (assign_obj p x)))))))))))"

text \<open>
  \<^verbatim>\<open>Emplace(pos, args...)\<close> with the same pack as \<^verbatim>\<open>EmplaceBack\<close>. The
  difference \<^verbatim>\<open>pos - cbegin()\<close> is narrowed to the \<^verbatim>\<open>int\<close>
  \<^verbatim>\<open>pos_index\<close>.

  The header names the pack without expanding it in the two calls
  \<^verbatim>\<open>InsertionWithRelocation(pos_index, args)\<close> and
  \<^verbatim>\<open>InsertionWithoutRelocation(pos_index, args)\<close>, which is not well-formed C++. The two
  calls are read with the expansion that is missing there, \<^verbatim>\<open>args...\<close>: the pack goes
  on as the lvalue it is, so that both functions copy from the argument.
\<close>

definition Emplace :: "'a traits \<Rightarrow> nat \<Rightarrow> ptr \<Rightarrow> 'a arg \<Rightarrow> ('a, ptr) M" where
  "Emplace tr this pos arg =
     bnd (Vector_end this) (\<lambda>e.
       if pos = e then
         seqn (EmplaceBack tr this arg)
           (bnd (Vector_end this) (\<lambda>e. ptr_minus e 1))
       else
         bnd (Vector_begin this) (\<lambda>b.
           bnd (ptr_diff pos b) (\<lambda>d.
             (let pos_index = to_int (int d) in
              bnd (this_obj this) (\<lambda>v.
                seqn
                  (if m_size v = Capacity v
                   then InsertionWithRelocation tr this pos_index arg
                   else InsertionWithoutRelocation tr this pos_index arg)
                  (seqn (set_size this (size_t (int (m_size v) + 1)))
                     (bnd (Vector_begin this) (\<lambda>b. ptr_add b pos_index))))))))"

text \<open>\<^verbatim>\<open>Insert(pos, const T& value)\<close>.\<close>

definition Insert :: "'a traits \<Rightarrow> nat \<Rightarrow> ptr \<Rightarrow> 'a arg \<Rightarrow> ('a, ptr) M" where
  "Insert tr this pos val = Emplace tr this pos val"

definition Erase :: "'a traits \<Rightarrow> nat \<Rightarrow> ptr \<Rightarrow> ('a, ptr) M" where
  "Erase tr this pos =
     bnd (Vector_begin this) (\<lambda>b.
       bnd (ptr_diff pos b) (\<lambda>pos_index.
         bnd (Vector_end this) (\<lambda>e.
           seqn (std_move tr (ptr_plus (ptr_plus b pos_index) 1) e (ptr_plus b pos_index))
             (seqn (PopBack this)
                (bnd (Vector_begin this) (\<lambda>b. ret (ptr_plus b pos_index)))))))"

section \<open>Observing a vector\<close>

text \<open>The machine before anything was allocated or built.\<close>

definition initial :: "'a machine" where
  "initial = \<lparr>heap = (\<lambda>_. None), brk = 0, objs = [], leaked = [], fuse = None\<rparr>"

text \<open>The storage block of a stored vector, slot by slot (empty for \<^verbatim>\<open>nullptr\<close>).\<close>

definition block_of :: "'a machine \<Rightarrow> nat \<Rightarrow> 'a slot list" where
  "block_of st this =
     (case m_buffer (m_data (objs st ! this)) of
        None \<Rightarrow> []
      | Some a \<Rightarrow> (case heap st a of None \<Rightarrow> [] | Some blk \<Rightarrow> blk))"

text \<open>The element sequence of a stored vector: the objects in the slots \<open>[0, size)\<close>.\<close>

definition elements :: "'a machine \<Rightarrow> nat \<Rightarrow> 'a list" where
  "elements st this = live_values (take (m_size (objs st ! this)) (block_of st this))"

text \<open>
  The element type \<^verbatim>\<open>int\<close>: an \<^verbatim>\<open>int\<close> object holds a number or, after
  default-initialisation (\<^verbatim>\<open>new (p) int\<close> performs no initialisation), an
  indeterminate value. Value-initialisation (\<^verbatim>\<open>int()\<close>) gives zero; moving an
  \<^verbatim>\<open>int\<close> copies it.
\<close>

datatype cint = Indeterminate | Num int

definition int_traits :: "cint traits" where
  "int_traits =
     \<lparr>size_of = 4, nothrow_move_constructible = True, copy_constructible = True,
      value_initialized = Num 0, default_initialized = Indeterminate,
      moved_from = (\<lambda>v. v)\<rparr>"

section \<open>The invariant\<close>

text \<open>
  A block of \<open>c\<close> slots of which the first hold the objects \<open>xs\<close> and the others are
  raw.
\<close>

definition filled :: "'a list \<Rightarrow> nat \<Rightarrow> 'a slot list" where
  "filled xs c = map Live xs @ replicate (c - length xs) Raw"

text \<open>
  \<open>holds st this b c xs\<close>: the stored vector \<open>this\<close> has the buffer \<open>b\<close>, the capacity
  \<open>c\<close> and the size \<open>length xs\<close>, with \<open>length xs \<le> c\<close>; its buffer is
  \<^verbatim>\<open>nullptr\<close> when the capacity is zero, and otherwise an allocated block of \<open>c\<close>
  slots, whose slots \<open>[0, size)\<close> hold the objects \<open>xs\<close> and whose slots
  \<open>[size, capacity)\<close> are raw.
\<close>

definition holds :: "'a machine \<Rightarrow> nat \<Rightarrow> nat option \<Rightarrow> nat \<Rightarrow> 'a list \<Rightarrow> bool" where
  "holds st this b c xs \<longleftrightarrow>
     this < length (objs st) \<and>
     objs st ! this = \<lparr>m_data = \<lparr>m_buffer = b, m_capacity = c\<rparr>, m_size = length xs\<rparr> \<and>
     length xs \<le> c \<and>
     (case b of
        None \<Rightarrow> c = 0
      | Some a \<Rightarrow> a < brk st \<and> heap st a = Some (filled xs c))"

text \<open>The invariant of a stored vector, read off the machine state alone.\<close>

definition vec_inv :: "'a machine \<Rightarrow> nat \<Rightarrow> bool" where
  "vec_inv st this \<longleftrightarrow>
     holds st this (m_buffer (m_data (objs st ! this))) (Capacity (objs st ! this))
       (elements st this)"

text \<open>The heap once the block of a buffer was given back.\<close>

definition released :: "nat option \<Rightarrow> (nat \<Rightarrow> 'x option) \<Rightarrow> (nat \<Rightarrow> 'x option)" where
  "released b h = (case b of None \<Rightarrow> h | Some a \<Rightarrow> h(a := None))"

text \<open>Reading the element \<^verbatim>\<open>v[index]\<close>.\<close>

definition read_at :: "nat \<Rightarrow> nat \<Rightarrow> ('a, 'a) M" where
  "read_at this index = bnd (Vector_at this index) load"

text \<open>
  \<^verbatim>\<open>v.Insert(v.begin() + k, val)\<close> and \<^verbatim>\<open>v.Erase(v.begin() + k)\<close>: insertion and
  removal at the offset \<open>k\<close>.
\<close>

definition insert_at :: "'a traits \<Rightarrow> nat \<Rightarrow> nat \<Rightarrow> 'a arg \<Rightarrow> ('a, ptr) M" where
  "insert_at tr this k val = bnd (Vector_begin this) (\<lambda>b. Insert tr this (ptr_plus b k) val)"

definition erase_at :: "'a traits \<Rightarrow> nat \<Rightarrow> nat \<Rightarrow> ('a, ptr) M" where
  "erase_at tr this k = bnd (Vector_begin this) (\<lambda>b. Erase tr this (ptr_plus b k))"

text \<open>
  Appending the values of a list, first to last, each from an object outside the storage
  blocks.
\<close>

fun push_all :: "'a traits \<Rightarrow> nat \<Rightarrow> 'a list \<Rightarrow> ('a, unit) M" where
  "push_all tr this [] = ret ()"
| "push_all tr this (v # vs) = seqn (PushBack tr this (Val v)) (push_all tr this vs)"

text \<open>
  Two stored vectors are separate when they are the same object or do not own the same
  block.
\<close>

definition separate :: "'a machine \<Rightarrow> nat \<Rightarrow> nat \<Rightarrow> bool" where
  "separate st this other \<longleftrightarrow>
     this = other \<or>
     (case m_buffer (m_data (objs st ! this)) of
        None \<Rightarrow> True
      | Some a \<Rightarrow> m_buffer (m_data (objs st ! other)) \<noteq> Some a)"

text \<open>
  \<open>pos\<close> is a position of the vector: an iterator into its block at an offset in
  \<open>[0, size]\<close>; it can be dereferenced when the offset is below the size.
\<close>

definition position_of :: "'a machine \<Rightarrow> nat \<Rightarrow> ptr \<Rightarrow> bool" where
  "position_of st this pos \<longleftrightarrow>
     fst pos = m_buffer (m_data (objs st ! this)) \<and> snd pos \<le> m_size (objs st ! this)"

definition element_position_of :: "'a machine \<Rightarrow> nat \<Rightarrow> ptr \<Rightarrow> bool" where
  "element_position_of st this pos \<longleftrightarrow>
     fst pos = m_buffer (m_data (objs st ! this)) \<and> snd pos < m_size (objs st ! this)"

text \<open>
  The sizes at which the integer arithmetic of the code is exact. A block of \<open>n\<close> objects
  can be asked for when the byte count \<open>n * sizeof(T)\<close> is a \<^verbatim>\<open>size_t\<close>. A vector
  of the size \<open>n\<close> can be relocated into a block of twice its size (of one slot for
  \<open>n = 0\<close>) when \<open>n\<close> is an \<^verbatim>\<open>int\<close> and that block can be asked for.
\<close>

definition allocatable :: "'a traits \<Rightarrow> nat \<Rightarrow> bool" where
  "allocatable tr n \<longleftrightarrow> 0 < size_of tr \<and> n * size_of tr < 2 ^ 64"

definition growable :: "'a traits \<Rightarrow> nat \<Rightarrow> bool" where
  "growable tr n \<longleftrightarrow> n < 2 ^ 31 \<and> allocatable tr (if n = 0 then 1 else 2 * n)"

text \<open>
  Between two states: nothing was allocated or released, every block has the length it had,
  every stored vector has the buffer and the capacity it had, and no object was lost.
\<close>

definition storage_kept :: "'a machine \<Rightarrow> 'a machine \<Rightarrow> bool" where
  "storage_kept st st' \<longleftrightarrow>
     brk st' = brk st \<and> leaked st' = leaked st \<and>
     map m_data (objs st') = map m_data (objs st) \<and>
     (\<forall>a. map_option length (heap st' a) = map_option length (heap st a))"

definition keeps_storage :: "('a, 'r) M \<Rightarrow> bool" where
  "keeps_storage m \<longleftrightarrow> (\<forall>st. storage_kept st (snd (m st)))"

section \<open>Runs that return normally\<close>

text \<open>
  The same machine when no operation throws. A computation is \<open>erasable\<close> when each of
  its runs that returns normally is also a run from the machine on which nothing throws,
  with the same result and the same final state up to the fuse.
\<close>

definition quiet :: "'a machine \<Rightarrow> 'a machine" where
  "quiet st = st\<lparr>fuse := None\<rparr>"

definition erasable :: "('a, 'r) M \<Rightarrow> bool" where
  "erasable m \<longleftrightarrow> (\<forall>st r st'. m st = (Inr r, st') \<longrightarrow> m (quiet st) = (Inr r, quiet st'))"

text \<open>A computation that neither reads nor writes the fuse.\<close>

definition blind :: "('a, 'r) M \<Rightarrow> bool" where
  "blind m \<longleftrightarrow> (\<forall>st f. m (st\<lparr>fuse := f\<rparr>) = (fst (m st), (snd (m st))\<lparr>fuse := f\<rparr>))"

text \<open>
  \<open>returns_with m st Q\<close>: from \<open>st\<close> the computation returns normally unless the fuse
  was set, and whenever it returns normally the result and the final state satisfy \<open>Q\<close>.
\<close>

definition returns_with :: "('a, 'r) M \<Rightarrow> 'a machine \<Rightarrow> ('r \<Rightarrow> 'a machine \<Rightarrow> bool) \<Rightarrow> bool" where
  "returns_with m st Q \<longleftrightarrow>
     (case m st of (Inr r, st') \<Rightarrow> Q r st' | (Inl e, st') \<Rightarrow> fuse st \<noteq> None)"

section \<open>Every exit\<close>

text \<open>
  \<open>triple P m Q E\<close>: from a state that satisfies \<open>P\<close>, the computation \<open>m\<close> either
  returns normally, with a result and a state that satisfy \<open>Q\<close>, or is left by an
  exception in a state that satisfies \<open>E\<close>; no assertion fails and no behaviour is
  undefined.
\<close>

definition triple ::
  "('a machine \<Rightarrow> bool) \<Rightarrow> ('a, 'r) M \<Rightarrow> ('r \<Rightarrow> 'a machine \<Rightarrow> bool) \<Rightarrow> ('a machine \<Rightarrow> bool) \<Rightarrow> bool" where
  "triple P m Q E \<longleftrightarrow>
     (\<forall>s. P s \<longrightarrow>
        (case m s of
           (Inr r, s') \<Rightarrow> Q r s'
         | (Inl Thrown, s') \<Rightarrow> E s'
         | (Inl Abort, s') \<Rightarrow> False))"

text \<open>The same for the run from one state.\<close>

definition exits_with ::
  "('a, 'r) M \<Rightarrow> 'a machine \<Rightarrow> ('r \<Rightarrow> 'a machine \<Rightarrow> bool) \<Rightarrow> ('a machine \<Rightarrow> bool) \<Rightarrow> bool" where
  "exits_with m st Q E \<longleftrightarrow>
     (case m st of
        (Inr r, st') \<Rightarrow> Q r st'
      | (Inl Thrown, st') \<Rightarrow> E st'
      | (Inl Abort, st') \<Rightarrow> False)"

text \<open>
  What such a proof tracks of a state: the number of stored vectors, some of the stored
  vectors (\<open>V\<close>), and for some of the allocated blocks (\<open>B\<close>) the number of slots and
  which of them hold a live object. The objects themselves and the fuse are left open.
\<close>

definition live :: "'a slot \<Rightarrow> bool" where
  "live s = (case s of Raw \<Rightarrow> False | Live _ \<Rightarrow> True)"

definition config ::
  "'a machine \<Rightarrow> nat \<Rightarrow> (nat \<rightharpoonup> Vector) \<Rightarrow> (nat \<rightharpoonup> nat \<times> (nat \<Rightarrow> bool)) \<Rightarrow> bool" where
  "config s n V B \<longleftrightarrow>
     length (objs s) = n \<and>
     (\<forall>i v. V i = Some v \<longrightarrow> i < n \<and> objs s ! i = v) \<and>
     (\<forall>a c L. B a = Some (c, L) \<longrightarrow>
        a < brk s \<and> (\<exists>blk. heap s a = Some blk \<and> length blk = c \<and> (\<forall>i<c. live (blk ! i) = L i)))"

text \<open>
  In such a view, the vector \<open>this\<close> has the buffer \<open>b\<close>, the capacity \<open>c\<close> and the size
  \<open>sz\<close>, and its block has \<open>c\<close> slots of which exactly the first \<open>sz\<close> hold a live
  object: the invariant, without the objects.
\<close>

definition layout ::
  "(nat \<rightharpoonup> Vector) \<Rightarrow> (nat \<rightharpoonup> nat \<times> (nat \<Rightarrow> bool)) \<Rightarrow> nat \<Rightarrow> nat option \<Rightarrow> nat \<Rightarrow> nat \<Rightarrow> bool" where
  "layout V B this b c sz \<longleftrightarrow>
     V this = Some \<lparr>m_data = \<lparr>m_buffer = b, m_capacity = c\<rparr>, m_size = sz\<rparr> \<and> sz \<le> c \<and>
     (case b of None \<Rightarrow> c = 0 | Some a \<Rightarrow> B a = Some (c, \<lambda>i. i < sz))"

section \<open>Sample states\<close>

text \<open>
  A machine holding one \<^verbatim>\<open>Vector<int>\<close> of capacity three with the elements
  \<open>1, 2\<close>.
\<close>

definition sample :: "cint machine" where
  "sample =
     \<lparr>heap = (\<lambda>_. None)(0 \<mapsto> [Live (Num 1), Live (Num 2), Raw]), brk = 1,
      objs = [\<lparr>m_data = \<lparr>m_buffer = Some 0, m_capacity = 3\<rparr>, m_size = 2\<rparr>],
      leaked = [], fuse = None\<rparr>"

text \<open>The sample with a second, default-constructed vector.\<close>

definition two_vectors :: "cint machine" where
  "two_vectors = sample\<lparr>objs := objs sample @ [\<lparr>m_data = RawMemory_default, m_size = 0\<rparr>]\<rparr>"

text \<open>The same for a full vector of capacity two, with a given fuse.\<close>

definition full_sample :: "nat option \<Rightarrow> cint machine" where
  "full_sample fz =
     \<lparr>heap = (\<lambda>_. None)(0 \<mapsto> [Live (Num 1), Live (Num 2)]), brk = 1,
      objs = [\<lparr>m_data = \<lparr>m_buffer = Some 0, m_capacity = 2\<rparr>, m_size = 2\<rparr>],
      leaked = [], fuse = fz\<rparr>"

text \<open>
  An element type that wraps a number and whose copy constructor (and move constructor) may
  throw.
\<close>

definition throwing_traits :: "cint traits" where
  "throwing_traits =
     \<lparr>size_of = 4, nothrow_move_constructible = False, copy_constructible = True,
      value_initialized = Num 0, default_initialized = Num 0,
      moved_from = (\<lambda>v. v)\<rparr>"

text \<open>
  The scenario of the specification on a \<^verbatim>\<open>Vector<int>\<close>: start empty, append
  \<open>1, 2, 3\<close>, insert \<open>99\<close> at offset 1, erase offset 0, remove the last element. The
  result is the vector.
\<close>

definition scenario :: "(cint, nat) M" where
  "scenario =
     bnd Vector_ctor (\<lambda>v.
       seqn (PushBack int_traits v (Val (Num 1)))
      (seqn (PushBack int_traits v (Val (Num 2)))
      (seqn (PushBack int_traits v (Val (Num 3)))
      (seqn (bnd (Vector_begin v) (\<lambda>b. Insert int_traits v (ptr_plus b 1) (Val (Num 99))))
      (seqn (bnd (Vector_begin v) (\<lambda>b. Erase int_traits v (ptr_plus b 0)))
      (seqn (PopBack v) (ret v)))))))"

section \<open>Integers within their types\<close>

lemma size_t_nat [simp]: "n < 2 ^ 64 \<Longrightarrow> size_t (int n) = n"
  by (simp add: size_t_def)

lemma size_t_Suc: "n < 2 ^ 64 - 1 \<Longrightarrow> size_t (int n + 1) = Suc n"
  using size_t_nat [of "Suc n"] by (simp add: add.commute)

lemma size_t_pred: "0 < n \<Longrightarrow> n < 2 ^ 64 \<Longrightarrow> size_t (int n - 1) = n - 1"
  using size_t_nat [of "n - 1"] by (simp add: of_nat_diff)

lemma size_t_double: "2 * n < 2 ^ 64 \<Longrightarrow> size_t (int n * 2) = n * 2"
  using size_t_nat [of "n * 2"] by simp

lemma size_t_diff: "k \<le> n \<Longrightarrow> n < 2 ^ 64 \<Longrightarrow> size_t (int n - int k) = n - k"
  using size_t_nat [of "n - k"] by (simp add: of_nat_diff)

lemma to_int_nat: "n < 2 ^ 31 \<Longrightarrow> to_int (int n) = int n"
  by (simp add: to_int_def)

lemma to_int_small: "0 \<le> k \<Longrightarrow> k < 2 ^ 31 \<Longrightarrow> to_int k = k"
  by (simp add: to_int_def)

lemma to_int_negative:
  assumes "2 ^ 31 \<le> n" and "n < 2 ^ 32"
  shows "to_int (int n) < 0"
proof -
  have "int n + 2 ^ 31 = int n - 2 ^ 31 + 2 ^ 32"
    by simp
  then have "(int n + 2 ^ 31) mod 2 ^ 32 = (int n - 2 ^ 31 + 2 ^ 32) mod 2 ^ 32"
    by (rule arg_cong)
  also have "\<dots> = (int n - 2 ^ 31) mod 2 ^ 32"
    by (rule mod_add_self2)
  also have "\<dots> = int n - 2 ^ 31"
    using assms by (intro mod_pos_pos_trivial) simp_all
  finally show ?thesis
    using assms by (simp add: to_int_def)
qed

lemma counted_int [simp]: "counted (int n) f = f n"
  by (simp add: counted_def)

lemma counted_negative: "k < 0 \<Longrightarrow> counted k f = raise Abort"
  by (simp add: counted_def)

lemma ptr_add_int [simp]: "ptr_add p (int k) = ret (ptr_plus p k)"
  by (simp add: ptr_add_def ptr_plus_def nat_int_add)

lemma allocatable_slots:
  "allocatable tr n \<Longrightarrow> size_t (int n * int (size_of tr)) div size_of tr = n"
  using size_t_nat [of "n * size_of tr"] by (simp add: allocatable_def)

lemma growable_int: "growable tr n \<Longrightarrow> n < 2 ^ 31"
  by (simp add: growable_def)

lemma growable_allocatable: "growable tr n \<Longrightarrow> allocatable tr (if n = 0 then 1 else n * 2)"
  by (auto simp: growable_def mult.commute)

lemma deref_Val [simp]: "deref (Val v) = ret v"
  by (simp add: deref_def)

lemma deref_Ref [simp]: "deref (Ref q) = load q"
  by (simp add: deref_def)

lemma to_int_zero [simp]: "to_int 0 = 0"
  by (simp add: to_int_def)

lemma size_t_zero [simp]: "size_t 0 = 0"
  by (simp add: size_t_def)

lemma size_t_one [simp]: "size_t 1 = 1"
  by (simp add: size_t_def)

lemma size_t_back: "n < 2 ^ 64 - 1 \<Longrightarrow> size_t (int (Suc n) - 1) = n"
  by simp

lemmas int_simps = size_t_Suc size_t_back size_t_double size_t_diff to_int_nat to_int_small
  allocatable_slots

lemma growable_mono:
  assumes "growable tr n" and "m \<le> n"
  shows "growable tr m"
proof -
  let ?f = "\<lambda>k::nat. if k = 0 then 1 else 2 * k"
  from assms(2) have "?f m \<le> ?f n"
    by auto
  then have "?f m * size_of tr \<le> ?f n * size_of tr"
    by (rule mult_le_mono1)
  moreover from assms(1) have "?f n * size_of tr < 2 ^ 64"
    unfolding growable_def allocatable_def by (elim conjE)
  ultimately have a: "?f m * size_of tr < 2 ^ 64"
    by (rule le_less_trans)
  from assms(1) have b: "0 < size_of tr"
    unfolding growable_def allocatable_def by (elim conjE)
  from assms(1) have c: "n < 2 ^ 31"
    unfolding growable_def allocatable_def by (elim conjE)
  from c assms(2) have d: "m < 2 ^ 31"
    by simp
  show ?thesis
    unfolding growable_def allocatable_def by (intro conjI a b d)
qed

section \<open>Running the primitives\<close>

lemma ret_apply [simp]: "ret x st = (Inr x, st)"
  by (simp add: ret_def)

lemma raise_apply [simp]: "raise e st = (Inl e, st)"
  by (simp add: raise_def)

lemma ptr_plus_pair [simp]: "ptr_plus (b, i) k = (b, i + k)"
  by (simp add: ptr_plus_def)

lemma tick_quiet [simp]: "fuse st = None \<Longrightarrow> tick st = (Inr (), st)"
  by (simp add: tick_def)

lemma for_loop_steps:
  assumes "\<And>j. j < k \<Longrightarrow> body (i + j) (G j) = (Inr (), G (Suc j))"
  shows "for_loop i k body (G 0) = (Inr (), G k)"
  using assms
proof (induction k arbitrary: i G)
  case 0
  show ?case by simp
next
  case (Suc k)
  have first: "body i (G 0) = (Inr (), G (Suc 0))"
    using Suc.prems [of 0] by simp
  have "for_loop (Suc i) k body ((\<lambda>j. G (Suc j)) 0) = (Inr (), (\<lambda>j. G (Suc j)) k)"
  proof (rule Suc.IH)
    fix j assume "j < k"
    then show "body (Suc i + j) (G (Suc j)) = (Inr (), G (Suc (Suc j)))"
      using Suc.prems [of "Suc j"] by simp
  qed
  with first show ?case by (simp add: seqn_def bnd_def)
qed

lemma uninit_loop_steps:
  assumes "\<And>j. j < k \<Longrightarrow> build (i + j) (G j) = (Inr (), G (Suc j))"
  shows "uninit_loop build undo i k (G 0) = (Inr (), G k)"
  using assms
proof (induction k arbitrary: i G)
  case 0
  show ?case by simp
next
  case (Suc k)
  have first: "build i (G 0) = (Inr (), G (Suc 0))"
    using Suc.prems [of 0] by simp
  have "uninit_loop build undo (Suc i) k ((\<lambda>j. G (Suc j)) 0) = (Inr (), (\<lambda>j. G (Suc j)) k)"
  proof (rule Suc.IH)
    fix j assume "j < k"
    then show "build (Suc i + j) (G (Suc j)) = (Inr (), G (Suc (Suc j)))"
      using Suc.prems [of "Suc j"] by simp
  qed
  with first show ?case by (simp add: seqn_def bnd_def on_throw_def)
qed

lemma slot_at_block:
  "heap st a = Some (map g [0..<c]) \<Longrightarrow> i < c \<Longrightarrow> slot_at (Some a, i) st = Some (g i)"
  by (simp add: slot_at_def)

lemma map_upt_update: "i < c \<Longrightarrow> (map g [0..<c])[i := s] = map (g(i := s)) [0..<c]"
  by (rule nth_equalityI) (auto simp: nth_list_update)

lemma put_slot_block:
  "heap st a = Some (map g [0..<c]) \<Longrightarrow> i < c \<Longrightarrow>
   put_slot (Some a, i) s st = st\<lparr>heap := (heap st)(a \<mapsto> map (g(i := s)) [0..<c])\<rparr>"
  by (simp add: put_slot_def map_upt_update)

lemma load_block:
  "heap st a = Some (map g [0..<c]) \<Longrightarrow> i < c \<Longrightarrow> g i = Live v \<Longrightarrow>
   load (Some a, i) st = (Inr v, st)"
  by (simp add: load_def slot_at_block)

lemma emplace_obj_block:
  "heap st a = Some (map g [0..<c]) \<Longrightarrow> i < c \<Longrightarrow> g i = Raw \<Longrightarrow>
   emplace_obj (Some a, i) v st =
     (Inr (), st\<lparr>heap := (heap st)(a \<mapsto> map (g(i := Live v)) [0..<c])\<rparr>)"
  by (simp add: emplace_obj_def slot_at_block put_slot_block)

lemma assign_obj_block:
  "heap st a = Some (map g [0..<c]) \<Longrightarrow> i < c \<Longrightarrow> g i = Live w \<Longrightarrow>
   assign_obj (Some a, i) v st =
     (Inr (), st\<lparr>heap := (heap st)(a \<mapsto> map (g(i := Live v)) [0..<c])\<rparr>)"
  by (simp add: assign_obj_def slot_at_block put_slot_block)

lemma Destroy_block:
  "heap st a = Some (map g [0..<c]) \<Longrightarrow> i < c \<Longrightarrow> g i = Live w \<Longrightarrow>
   Destroy (Some a, i) st =
     (Inr (), st\<lparr>heap := (heap st)(a \<mapsto> map (g(i := Raw)) [0..<c])\<rparr>)"
  by (simp add: Destroy_def slot_at_block put_slot_block)

lemma map_upt_cong: "(\<And>i. i < c \<Longrightarrow> g i = h i) \<Longrightarrow> map g [0..<c] = map h [0..<c]"
  by simp

lemma block_upd_cong:
  assumes "\<And>i. g i = g' i"
  shows "st\<lparr>heap := (heap st)(a \<mapsto> map g [0..<c])\<rparr> = st\<lparr>heap := (heap st)(a \<mapsto> map g' [0..<c])\<rparr>"
proof -
  have "g = g'" by (rule ext) (rule assms)
  then show ?thesis by simp
qed

lemma block_upd_same:
  assumes "heap st a = Some (map g [0..<c])" and "\<And>i. g' i = g i"
  shows "st\<lparr>heap := (heap st)(a \<mapsto> map g' [0..<c])\<rparr> = st"
proof -
  have "g' = g" by (rule ext) (rule assms)
  with assms(1) show ?thesis by (simp add: fun_upd_idem)
qed

lemma DestroyN_block:
  assumes h: "heap st a = Some (map g [0..<c])"
    and le: "i0 + n \<le> c"
    and live: "\<And>i. i0 \<le> i \<Longrightarrow> i < i0 + n \<Longrightarrow> \<exists>v. g i = Live v"
  shows "DestroyN (Some a, i0) n st =
    (Inr (), st\<lparr>heap := (heap st)(a \<mapsto> map (\<lambda>i. if i0 \<le> i \<and> i < i0 + n then Raw else g i) [0..<c])\<rparr>)"
proof -
  define G where "G j = st\<lparr>heap := (heap st)(a \<mapsto> map (\<lambda>i. if i0 \<le> i \<and> i < i0 + j then Raw else g i) [0..<c])\<rparr>" for j
  have step: "Destroy (ptr_plus (Some a, i0) (0 + j)) (G j) = (Inr (), G (Suc j))" if jn: "j < n" for j
  proof -
    obtain v where v: "g (i0 + j) = Live v" using live [of "i0 + j"] jn by auto
    have "Destroy (Some a, i0 + j) (G j) =
      (Inr (), (G j)\<lparr>heap := (heap (G j))(a \<mapsto> map ((\<lambda>i. if i0 \<le> i \<and> i < i0 + j then Raw else g i)(i0 + j := Raw)) [0..<c])\<rparr>)"
      by (rule Destroy_block [where w = v]) (use jn le v in \<open>simp_all add: G_def\<close>)
    also have "\<dots> = (Inr (), G (Suc j))"
      by (simp add: G_def) (rule block_upd_cong, auto)
    finally show ?thesis by simp
  qed
  have "for_loop 0 n (\<lambda>i. Destroy (ptr_plus (Some a, i0) i)) (G 0) = (Inr (), G n)"
    by (rule for_loop_steps) (use step in simp)
  moreover have "G 0 = st" unfolding G_def by (rule block_upd_same [OF h]) auto
  ultimately show ?thesis by (simp add: DestroyN_def G_def)
qed


lemma fun_upd_merge: "a \<noteq> b \<Longrightarrow> (h(a := x, b := y))(a := z) = h(a := z, b := y)"
  by (auto simp: fun_eq_iff)

lemma two_blocks_cong:
  assumes "\<And>i. ga i = ga' i" and "\<And>i. gb i = gb' i"
  shows "st\<lparr>heap := (heap st)(a \<mapsto> map ga [0..<ca], b \<mapsto> map gb [0..<cb])\<rparr> =
         st\<lparr>heap := (heap st)(a \<mapsto> map ga' [0..<ca], b \<mapsto> map gb' [0..<cb])\<rparr>"
proof -
  have "ga = ga'" "gb = gb'" by (rule ext, rule assms)+
  then show ?thesis by simp
qed

lemma two_blocks_same:
  assumes "heap st a = Some (map ga [0..<ca])" and "heap st b = Some (map gb [0..<cb])"
    and "\<And>i. ga' i = ga i" and "\<And>i. gb' i = gb i"
  shows "st\<lparr>heap := (heap st)(a \<mapsto> map ga' [0..<ca], b \<mapsto> map gb' [0..<cb])\<rparr> = st"
proof -
  have "ga' = ga" "gb' = gb" by (rule ext, rule assms)+
  with assms(1,2) show ?thesis by (simp add: fun_upd_idem)
qed

lemma uninitialized_copy_n_blocks:
  assumes ha: "heap st a = Some (map ga [0..<ca])"
    and hb: "heap st b = Some (map gb [0..<cb])"
    and ab: "a \<noteq> b" and q: "fuse st = None"
    and la: "i0 + n \<le> ca" and lb: "j0 + n \<le> cb"
    and live: "\<And>i. i < n \<Longrightarrow> \<exists>v. ga (i0 + i) = Live v"
    and raw: "\<And>i. i < n \<Longrightarrow> gb (j0 + i) = Raw"
  shows "uninitialized_copy_n (Some a, i0) n (Some b, j0) st =
    (Inr (), st\<lparr>heap := (heap st)(b \<mapsto>
       map (\<lambda>i. if j0 \<le> i \<and> i < j0 + n then ga (i0 + (i - j0)) else gb i) [0..<cb])\<rparr>)"
proof -
  define F where "F j = (\<lambda>i. if j0 \<le> i \<and> i < j0 + j then ga (i0 + (i - j0)) else gb i)" for j
  define G where "G j = st\<lparr>heap := (heap st)(b \<mapsto> map (F j) [0..<cb])\<rparr>" for j
  have step: "copy_construct (ptr_plus (Some b, j0) (0 + j)) (ptr_plus (Some a, i0) (0 + j)) (G j)
      = (Inr (), G (Suc j))" if jn: "j < n" for j
  proof -
    obtain v where v: "ga (i0 + j) = Live v" using live [OF jn] by auto
    have l: "load (Some a, i0 + j) (G j) = (Inr v, G j)"
      by (rule load_block [where g = ga and c = ca]) (use ha ab jn la v in \<open>simp_all add: G_def\<close>)
    have e: "emplace_obj (Some b, j0 + j) v (G j) =
        (Inr (), (G j)\<lparr>heap := (heap (G j))(b \<mapsto> map ((F j)(j0 + j := Live v)) [0..<cb])\<rparr>)"
      by (rule emplace_obj_block) (use jn lb raw [OF jn] in \<open>simp_all add: G_def F_def\<close>)
    have "(G j)\<lparr>heap := (heap (G j))(b \<mapsto> map ((F j)(j0 + j := Live v)) [0..<cb])\<rparr> = G (Suc j)"
      by (simp add: G_def) (rule block_upd_cong, use v in \<open>auto simp: F_def\<close>)
    with l e q show ?thesis by (simp add: copy_construct_def bnd_def seqn_def G_def)
  qed
  have "uninit_loop (\<lambda>i. copy_construct (ptr_plus (Some b, j0) i) (ptr_plus (Some a, i0) i))
          (\<lambda>i. Destroy (ptr_plus (Some b, j0) i)) 0 n (G 0) = (Inr (), G n)"
    by (rule uninit_loop_steps) (use step in simp)
  moreover have "G 0 = st" unfolding G_def by (rule block_upd_same [OF hb]) (auto simp: F_def)
  ultimately show ?thesis by (simp add: uninitialized_copy_n_def G_def F_def)
qed

lemma uninitialized_move_n_blocks:
  assumes ha: "heap st a = Some (map ga [0..<ca])"
    and hb: "heap st b = Some (map gb [0..<cb])"
    and ab: "a \<noteq> b" and q: "fuse st = None"
    and la: "i0 + n \<le> ca" and lb: "j0 + n \<le> cb"
    and live: "\<And>i. i < n \<Longrightarrow> \<exists>v. ga (i0 + i) = Live v"
    and raw: "\<And>i. i < n \<Longrightarrow> gb (j0 + i) = Raw"
  shows "uninitialized_move_n tr (Some a, i0) n (Some b, j0) st =
    (Inr (), st\<lparr>heap := (heap st)
       (a \<mapsto> map (\<lambda>i. if i0 \<le> i \<and> i < i0 + n then map_slot (moved_from tr) (ga i) else ga i) [0..<ca],
        b \<mapsto> map (\<lambda>i. if j0 \<le> i \<and> i < j0 + n then ga (i0 + (i - j0)) else gb i) [0..<cb])\<rparr>)"
proof -
  define FA where "FA j = (\<lambda>i. if i0 \<le> i \<and> i < i0 + j then map_slot (moved_from tr) (ga i) else ga i)" for j
  define FB where "FB j = (\<lambda>i. if j0 \<le> i \<and> i < j0 + j then ga (i0 + (i - j0)) else gb i)" for j
  define G where "G j = st\<lparr>heap := (heap st)(a \<mapsto> map (FA j) [0..<ca], b \<mapsto> map (FB j) [0..<cb])\<rparr>" for j
  have step: "move_construct tr (ptr_plus (Some b, j0) (0 + j)) (ptr_plus (Some a, i0) (0 + j)) (G j)
      = (Inr (), G (Suc j))" if jn: "j < n" for j
  proof -
    obtain v where v: "ga (i0 + j) = Live v" using live [OF jn] by auto
    have l: "load (Some a, i0 + j) (G j) = (Inr v, G j)"
      by (rule load_block [where g = "FA j" and c = ca]) (use ab jn la v in \<open>simp_all add: G_def FA_def\<close>)
    define S1 where "S1 = st\<lparr>heap := (heap st)(a \<mapsto> map (FA j) [0..<ca],
        b \<mapsto> map ((FB j)(j0 + j := Live v)) [0..<cb])\<rparr>"
    have e: "emplace_obj (Some b, j0 + j) v (G j) = (Inr (), S1)"
      using emplace_obj_block [where st = "G j" and a = b and g = "FB j" and c = cb and i = "j0 + j" and v = v]
        jn lb raw [OF jn] by (simp add: G_def FB_def S1_def)
    have s: "assign_obj (Some a, i0 + j) (moved_from tr v) S1 = (Inr (), G (Suc j))"
    proof -
      have "assign_obj (Some a, i0 + j) (moved_from tr v) S1 =
        (Inr (), S1\<lparr>heap := (heap S1)(a \<mapsto> map ((FA j)(i0 + j := Live (moved_from tr v))) [0..<ca])\<rparr>)"
        by (rule assign_obj_block [where w = v]) (use ab jn la v in \<open>simp_all add: S1_def FA_def\<close>)
      also have "S1\<lparr>heap := (heap S1)(a \<mapsto> map ((FA j)(i0 + j := Live (moved_from tr v))) [0..<ca])\<rparr> = G (Suc j)"
        using ab by (simp add: S1_def G_def fun_upd_merge) (rule two_blocks_cong, use v in \<open>auto simp: FA_def FB_def\<close>)
      finally show ?thesis .
    qed
    from l e s q show ?thesis
      by (simp add: move_construct_def bnd_def seqn_def G_def S1_def)
  qed
  have "uninit_loop (\<lambda>i. move_construct tr (ptr_plus (Some b, j0) i) (ptr_plus (Some a, i0) i))
          (\<lambda>i. Destroy (ptr_plus (Some b, j0) i)) 0 n (G 0) = (Inr (), G n)"
    by (rule uninit_loop_steps) (use step in simp)
  moreover have "G 0 = st" unfolding G_def
    by (rule two_blocks_same [OF ha hb]) (auto simp: FA_def FB_def)
  ultimately show ?thesis by (simp add: uninitialized_move_n_def G_def FA_def FB_def)
qed


lemma MoveOrCopyUninitialized_blocks:
  assumes ha: "heap st a = Some (map ga [0..<ca])"
    and hb: "heap st b = Some (map gb [0..<cb])"
    and ab: "a \<noteq> b" and q: "fuse st = None"
    and la: "i0 + n \<le> ca" and lb: "j0 + n \<le> cb"
    and live: "\<And>i. i < n \<Longrightarrow> \<exists>v. ga (i0 + i) = Live v"
    and raw: "\<And>i. i < n \<Longrightarrow> gb (j0 + i) = Raw"
  shows "MoveOrCopyUninitialized tr (Some a, i0) (int n) (Some b, j0) st =
    (Inr (), st\<lparr>heap := (heap st)
       (a \<mapsto> map (\<lambda>i. if (nothrow_move_constructible tr \<or> \<not> copy_constructible tr) \<and> i0 \<le> i \<and> i < i0 + n
                      then map_slot (moved_from tr) (ga i) else ga i) [0..<ca],
        b \<mapsto> map (\<lambda>i. if j0 \<le> i \<and> i < j0 + n then ga (i0 + (i - j0)) else gb i) [0..<cb])\<rparr>)"
proof (cases "nothrow_move_constructible tr \<or> \<not> copy_constructible tr")
  case True
  then show ?thesis
    using uninitialized_move_n_blocks [OF ha hb ab q la lb live raw, of tr]
    by (simp add: MoveOrCopyUninitialized_def)
next
  case False
  have "(heap st)(a \<mapsto> map ga [0..<ca]) = heap st"
    using ha by (simp add: fun_upd_idem)
  with False show ?thesis
    using uninitialized_copy_n_blocks [OF ha hb ab q la lb live raw]
    by (simp add: MoveOrCopyUninitialized_def)
qed

lemma uninit_construct_block:
  assumes hb: "heap st b = Some (map gb [0..<cb])"
    and q: "fuse st = None"
    and lb: "j0 + n \<le> cb"
    and raw: "\<And>i. i < n \<Longrightarrow> gb (j0 + i) = Raw"
  shows "uninit_loop (\<lambda>i. seqn tick (emplace_obj (ptr_plus (Some b, j0) i) x))
           (\<lambda>i. Destroy (ptr_plus (Some b, j0) i)) 0 n st =
    (Inr (), st\<lparr>heap := (heap st)(b \<mapsto>
       map (\<lambda>i. if j0 \<le> i \<and> i < j0 + n then Live x else gb i) [0..<cb])\<rparr>)"
proof -
  define F where "F j = (\<lambda>i. if j0 \<le> i \<and> i < j0 + j then Live x else gb i)" for j
  define G where "G j = st\<lparr>heap := (heap st)(b \<mapsto> map (F j) [0..<cb])\<rparr>" for j
  have step: "seqn tick (emplace_obj (ptr_plus (Some b, j0) (0 + j)) x) (G j) = (Inr (), G (Suc j))"
    if jn: "j < n" for j
  proof -
    have e: "emplace_obj (Some b, j0 + j) x (G j) =
        (Inr (), (G j)\<lparr>heap := (heap (G j))(b \<mapsto> map ((F j)(j0 + j := Live x)) [0..<cb])\<rparr>)"
      by (rule emplace_obj_block) (use jn lb raw [OF jn] in \<open>simp_all add: G_def F_def\<close>)
    have "(G j)\<lparr>heap := (heap (G j))(b \<mapsto> map ((F j)(j0 + j := Live x)) [0..<cb])\<rparr> = G (Suc j)"
      by (simp add: G_def) (rule block_upd_cong, auto simp: F_def)
    with e q show ?thesis by (simp add: bnd_def seqn_def G_def)
  qed
  have "uninit_loop (\<lambda>i. seqn tick (emplace_obj (ptr_plus (Some b, j0) i) x))
          (\<lambda>i. Destroy (ptr_plus (Some b, j0) i)) 0 n (G 0) = (Inr (), G n)"
    by (rule uninit_loop_steps) (use step in simp)
  moreover have "G 0 = st" unfolding G_def by (rule block_upd_same [OF hb]) (auto simp: F_def)
  ultimately show ?thesis by (simp add: G_def F_def)
qed

lemma copy_n_blocks:
  assumes ha: "heap st a = Some (map ga [0..<ca])"
    and hb: "heap st b = Some (map gb [0..<cb])"
    and ab: "a \<noteq> b" and q: "fuse st = None"
    and la: "n \<le> ca" and lb: "n \<le> cb"
    and live: "\<And>i. i < n \<Longrightarrow> \<exists>v. ga i = Live v"
    and liveb: "\<And>i. i < n \<Longrightarrow> \<exists>v. gb i = Live v"
  shows "copy_n (Some a, 0) n (Some b, 0) st =
    (Inr (), st\<lparr>heap := (heap st)(b \<mapsto> map (\<lambda>i. if i < n then ga i else gb i) [0..<cb])\<rparr>)"
proof -
  define F where "F j = (\<lambda>i. if i < j then ga i else gb i)" for j
  define G where "G j = st\<lparr>heap := (heap st)(b \<mapsto> map (F j) [0..<cb])\<rparr>" for j
  have step: "copy_assign (ptr_plus (Some b, 0) (0 + j)) (ptr_plus (Some a, 0) (0 + j)) (G j)
      = (Inr (), G (Suc j))" if jn: "j < n" for j
  proof -
    obtain v where v: "ga j = Live v" using live [OF jn] by auto
    obtain w where w: "gb j = Live w" using liveb [OF jn] by auto
    have l: "load (Some a, j) (G j) = (Inr v, G j)"
      by (rule load_block [where g = ga and c = ca]) (use ha ab jn la v in \<open>simp_all add: G_def\<close>)
    have e: "assign_obj (Some b, j) v (G j) =
        (Inr (), (G j)\<lparr>heap := (heap (G j))(b \<mapsto> map ((F j)(j := Live v)) [0..<cb])\<rparr>)"
      by (rule assign_obj_block [where w = w]) (use jn lb w in \<open>simp_all add: G_def F_def\<close>)
    have "(G j)\<lparr>heap := (heap (G j))(b \<mapsto> map ((F j)(j := Live v)) [0..<cb])\<rparr> = G (Suc j)"
      by (simp add: G_def) (rule block_upd_cong, use v in \<open>auto simp: F_def\<close>)
    with l e q show ?thesis by (simp add: copy_assign_def bnd_def seqn_def G_def)
  qed
  have "for_loop 0 n (\<lambda>i. copy_assign (ptr_plus (Some b, 0) i) (ptr_plus (Some a, 0) i)) (G 0)
      = (Inr (), G n)"
    by (rule for_loop_steps) (use step in simp)
  moreover have "G 0 = st" unfolding G_def by (rule block_upd_same [OF hb]) (auto simp: F_def)
  ultimately show ?thesis by (simp add: copy_n_def G_def F_def)
qed


lemma move_assign_block:
  assumes h: "heap st a = Some (map g [0..<c])" and q: "fuse st = None"
    and ic: "i < c" and jc: "j < c" and ij: "i \<noteq> j"
    and src: "g j = Live v" and dst: "g i = Live w"
  shows "move_assign tr (Some a, i) (Some a, j) st =
    (Inr (), st\<lparr>heap := (heap st)(a \<mapsto> map (g(i := Live v, j := Live (moved_from tr v))) [0..<c])\<rparr>)"
proof -
  have l: "load (Some a, j) st = (Inr v, st)"
    by (rule load_block [OF h jc src])
  define S1 where "S1 = st\<lparr>heap := (heap st)(a \<mapsto> map (g(i := Live v)) [0..<c])\<rparr>"
  have e: "assign_obj (Some a, i) v st = (Inr (), S1)"
    unfolding S1_def by (rule assign_obj_block [OF h ic dst])
  have "assign_obj (Some a, j) (moved_from tr v) S1 =
      (Inr (), S1\<lparr>heap := (heap S1)(a \<mapsto> map ((g(i := Live v))(j := Live (moved_from tr v))) [0..<c])\<rparr>)"
    by (rule assign_obj_block [where w = v]) (use jc ij src in \<open>simp_all add: S1_def\<close>)
  with l e q show ?thesis
    by (simp add: move_assign_def bnd_def seqn_def S1_def)
qed

lemma std_move_block:
  assumes h: "heap st a = Some (map g [0..<c])" and q: "fuse st = None"
    and kn: "k < n" and nc: "n \<le> c"
    and live: "\<And>i. k \<le> i \<Longrightarrow> i < n \<Longrightarrow> g i = Live (x i)"
  shows "std_move tr (Some a, k + 1) (Some a, n) (Some a, k) st =
    (Inr (), st\<lparr>heap := (heap st)(a \<mapsto>
       map (\<lambda>i. if k \<le> i \<and> i < n - 1 then Live (x (i + 1))
                 else if i = n - 1 \<and> k < n - 1 then Live (moved_from tr (x i))
                 else g i) [0..<c])\<rparr>)"
proof -
  define F where "F j = (\<lambda>i. if k \<le> i \<and> i < k + j then Live (x (i + 1))
                 else if i = k + j \<and> 0 < j then Live (moved_from tr (x i))
                 else g i)" for j
  define G where "G j = st\<lparr>heap := (heap st)(a \<mapsto> map (F j) [0..<c])\<rparr>" for j
  have step: "move_assign tr (ptr_plus (Some a, k) (0 + j)) (ptr_plus (Some a, k + 1) (0 + j)) (G j)
      = (Inr (), G (Suc j))" if jn: "j < n - (k + 1)" for j
  proof -
    have "move_assign tr (Some a, k + j) (Some a, k + 1 + j) (G j) =
      (Inr (), (G j)\<lparr>heap := (heap (G j))(a \<mapsto>
         map ((F j)(k + j := Live (x (k + 1 + j)), k + 1 + j := Live (moved_from tr (x (k + 1 + j))))) [0..<c])\<rparr>)"
    proof (rule move_assign_block [where w = "if j = 0 then x k else moved_from tr (x (k + j))"])
      show "heap (G j) a = Some (map (F j) [0..<c])" by (simp add: G_def)
      show "fuse (G j) = None" using q by (simp add: G_def)
      show "k + j < c" "k + 1 + j < c" "k + j \<noteq> k + 1 + j" using jn nc by auto
      show "F j (k + 1 + j) = Live (x (k + 1 + j))" using jn live [of "k + 1 + j"] by (simp add: F_def)
      show "F j (k + j) = Live (if j = 0 then x k else moved_from tr (x (k + j)))"
        using jn live [of k] by (simp add: F_def)
    qed
    also have "(G j)\<lparr>heap := (heap (G j))(a \<mapsto>
         map ((F j)(k + j := Live (x (k + 1 + j)), k + 1 + j := Live (moved_from tr (x (k + 1 + j))))) [0..<c])\<rparr>
        = G (Suc j)"
      by (simp add: G_def) (rule block_upd_cong, auto simp: F_def)
    finally show ?thesis by simp
  qed
  have "for_loop 0 (n - (k + 1)) (\<lambda>i. move_assign tr (ptr_plus (Some a, k) i) (ptr_plus (Some a, k + 1) i)) (G 0)
      = (Inr (), G (n - (k + 1)))"
    by (rule for_loop_steps) (use step in simp)
  moreover have "G 0 = st" unfolding G_def by (rule block_upd_same [OF h]) (auto simp: F_def)
  moreover have "G (n - (k + 1)) = st\<lparr>heap := (heap st)(a \<mapsto>
       map (\<lambda>i. if k \<le> i \<and> i < n - 1 then Live (x (i + 1))
                 else if i = n - 1 \<and> k < n - 1 then Live (moved_from tr (x i))
                 else g i) [0..<c])\<rparr>"
    unfolding G_def by (rule block_upd_cong) (use kn in \<open>auto simp: F_def\<close>)
  ultimately show ?thesis using kn by (simp add: std_move_def ptr_diff_def bnd_def)
qed

lemma move_backward_block:
  assumes h: "heap st a = Some (map g [0..<c])" and q: "fuse st = None"
    and km: "k \<le> m" and mc: "m + 1 < c"
    and live: "\<And>i. k \<le> i \<Longrightarrow> i \<le> m \<Longrightarrow> g i = Live (x i)"
  shows "move_backward tr (Some a, k) (Some a, m) (Some a, m + 1) st =
    (Inr (), st\<lparr>heap := (heap st)(a \<mapsto>
       map (\<lambda>i. if k < i \<and> i \<le> m then Live (x (i - 1))
                 else if i = k \<and> k < m then Live (moved_from tr (x i))
                 else g i) [0..<c])\<rparr>)"
proof -
  define F where "F j = (\<lambda>i. if m - j < i \<and> i \<le> m then Live (x (i - 1))
                 else if i = m - j \<and> 0 < j then Live (moved_from tr (x i))
                 else g i)" for j
  define G where "G j = st\<lparr>heap := (heap st)(a \<mapsto> map (F j) [0..<c])\<rparr>" for j
  have step: "bnd (ptr_minus (Some a, m + 1) (Suc (0 + j))) (\<lambda>d.
       bnd (ptr_minus (Some a, m) (Suc (0 + j))) (\<lambda>s. move_assign tr d s)) (G j)
      = (Inr (), G (Suc j))" if jn: "j < m - k" for j
  proof -
    have "move_assign tr (Some a, m - j) (Some a, m - Suc j) (G j) =
      (Inr (), (G j)\<lparr>heap := (heap (G j))(a \<mapsto>
         map ((F j)(m - j := Live (x (m - Suc j)), m - Suc j := Live (moved_from tr (x (m - Suc j))))) [0..<c])\<rparr>)"
    proof (rule move_assign_block [where w = "if j = 0 then x m else moved_from tr (x (m - j))"])
      show "heap (G j) a = Some (map (F j) [0..<c])" by (simp add: G_def)
      show "fuse (G j) = None" using q by (simp add: G_def)
      show "m - j < c" "m - Suc j < c" "m - j \<noteq> m - Suc j" using jn mc by auto
      show "F j (m - Suc j) = Live (x (m - Suc j))" using jn live [of "m - Suc j"] by (auto simp: F_def)
      show "F j (m - j) = Live (if j = 0 then x m else moved_from tr (x (m - j)))"
        using jn km live [of m] by (auto simp: F_def)
    qed
    also have "(G j)\<lparr>heap := (heap (G j))(a \<mapsto>
         map ((F j)(m - j := Live (x (m - Suc j)), m - Suc j := Live (moved_from tr (x (m - Suc j))))) [0..<c])\<rparr>
        = G (Suc j)"
      by (simp add: G_def) (rule block_upd_cong, use jn in \<open>auto simp: F_def\<close>)
    finally show ?thesis using jn by (simp add: ptr_minus_def bnd_def)
  qed
  have "for_loop 0 (m - k) (\<lambda>i. bnd (ptr_minus (Some a, m + 1) (Suc i)) (\<lambda>d.
       bnd (ptr_minus (Some a, m) (Suc i)) (\<lambda>s. move_assign tr d s))) (G 0)
      = (Inr (), G (m - k))"
    by (rule for_loop_steps) (use step in simp)
  moreover have "G 0 = st" unfolding G_def by (rule block_upd_same [OF h]) (auto simp: F_def)
  moreover have "G (m - k) = st\<lparr>heap := (heap st)(a \<mapsto>
       map (\<lambda>i. if k < i \<and> i \<le> m then Live (x (i - 1))
                 else if i = k \<and> k < m then Live (moved_from tr (x i))
                 else g i) [0..<c])\<rparr>"
    unfolding G_def by (rule block_upd_cong) (use km in \<open>auto simp: F_def\<close>)
  ultimately show ?thesis using km by (simp add: move_backward_def ptr_diff_def bnd_def)
qed

section \<open>The invariant and the element sequence\<close>

lemma filled_as_map:
  "length xs \<le> c \<Longrightarrow> filled xs c = map (\<lambda>i. if i < length xs then Live (xs ! i) else Raw) [0..<c]"
  by (rule nth_equalityI) (auto simp: filled_def nth_append)

lemma map_as_filled:
  assumes "\<And>i. i < c \<Longrightarrow> g i = (if i < length ys then Live (ys ! i) else Raw)" and "length ys \<le> c"
  shows "map g [0..<c] = filled ys c"
  using assms by (simp add: filled_as_map)

lemma length_filled [simp]: "length xs \<le> c \<Longrightarrow> length (filled xs c) = c"
  by (simp add: filled_def)

lemma live_values_map_Live [simp]: "live_values (map Live xs) = xs"
  by (induction xs) simp_all

lemma live_values_replicate_Raw [simp]: "live_values (replicate n Raw) = []"
  by (induction n) simp_all

lemma live_values_append [simp]: "live_values (xs @ ys) = live_values xs @ live_values ys"
  by (induction xs rule: live_values.induct) simp_all

lemma take_filled: "length xs \<le> c \<Longrightarrow> take (length xs) (filled xs c) = map Live xs"
  by (simp add: filled_def)

lemma holds_elements: "holds st this b c xs \<Longrightarrow> elements st this = xs"
  by (cases b) (auto simp: holds_def elements_def block_of_def take_filled)

lemma holds_vec_inv: "holds st this b c xs \<Longrightarrow> vec_inv st this"
  using holds_elements [of st this b c xs]
  by (simp add: vec_inv_def holds_def Capacity_def RawMemory_Capacity_def)

lemma vec_inv_holds:
  "vec_inv st this \<Longrightarrow>
   holds st this (m_buffer (m_data (objs st ! this))) (m_capacity (m_data (objs st ! this))) (elements st this)"
  by (simp add: vec_inv_def Capacity_def RawMemory_Capacity_def)

lemma this_obj_holds:
  "holds st this b c xs \<Longrightarrow>
   this_obj this st = (Inr \<lparr>m_data = \<lparr>m_buffer = b, m_capacity = c\<rparr>, m_size = length xs\<rparr>, st)"
  by (simp add: holds_def this_obj_def)

lemma PopBack_empty: "holds st this b c [] \<Longrightarrow> PopBack this st = (Inr (), st)"
  by (simp add: PopBack_def bnd_def this_obj_holds Size_def)

lemma filled_butlast:
  "xs \<noteq> [] \<Longrightarrow> length xs \<le> c \<Longrightarrow> (filled xs c)[length xs - 1 := Raw] = filled (butlast xs) c"
  by (rule nth_equalityI) (auto simp: filled_def nth_append nth_list_update nth_butlast)

lemma PopBack_nonempty:
  assumes h: "holds st this b c xs" and ne: "xs \<noteq> []"
  shows "\<exists>a. b = Some a \<and> PopBack this st =
    (Inr (), st\<lparr>heap := (heap st)(a \<mapsto> (filled xs c)[length xs - 1 := Raw]),
               objs := (objs st)[this := (objs st ! this)\<lparr>m_size := length xs - 1\<rparr>]\<rparr>)"
proof -
  from h ne obtain a where b: "b = Some a" by (cases b) (auto simp: holds_def)
  from h b have ha: "heap st a = Some (filled xs c)" and le: "length xs \<le> c"
    and ob: "objs st ! this = \<lparr>m_data = \<lparr>m_buffer = Some a, m_capacity = c\<rparr>, m_size = length xs\<rparr>"
    and lt: "this < length (objs st)"
    by (simp_all add: holds_def)
  have live: "filled xs c ! (length xs - 1) = Live (last xs)"
    using ne by (simp add: filled_def nth_append last_conv_nth)
  have pos: "length xs - 1 < c" using ne le by (cases xs) auto
  have d: "Destroy (Some a, length xs - 1) st =
     (Inr (), st\<lparr>heap := (heap st)(a \<mapsto> (filled xs c)[length xs - 1 := Raw])\<rparr>)"
    using ha le pos live by (simp add: Destroy_def slot_at_def put_slot_def)
  show ?thesis
    using h ne le d b ob lt pos
    by (simp add: PopBack_def bnd_def seqn_def this_obj_holds Size_def RawMemory_plus_def
        set_size_def this_obj_def put_obj_def)
qed

section \<open>Appending when nothing throws\<close>

lemma replicate_as_map: "replicate c Raw = map (\<lambda>_. Raw) [0..<c]"
  by (rule nth_equalityI) auto

lemma RawMemory_ctor_quiet:
  "c \<noteq> 0 \<Longrightarrow> fuse st = None \<Longrightarrow> allocatable tr c \<Longrightarrow>
   RawMemory_ctor tr c st =
     (Inr \<lparr>m_buffer = Some (brk st), m_capacity = c\<rparr>,
      st\<lparr>heap := (heap st)(brk st \<mapsto> map (\<lambda>_. Raw) [0..<c]), brk := Suc (brk st)\<rparr>)"
  by (simp add: RawMemory_ctor_def Allocate_def bnd_def seqn_def replicate_as_map allocatable_slots)

lemma live_values_all_raw: "(\<And>i. i < c \<Longrightarrow> g i = Raw) \<Longrightarrow> live_values (map g [0..<c]) = []"
proof -
  assume "\<And>i. i < c \<Longrightarrow> g i = Raw"
  then have "map g [0..<c] = replicate c Raw"
    by (intro nth_equalityI) auto
  then show ?thesis by simp
qed

lemma Deallocate_raw:
  assumes "heap st a = Some (map g [0..<c])" and "\<And>i. i < c \<Longrightarrow> g i = Raw"
  shows "Deallocate (Some a) st = (Inr (), st\<lparr>heap := (heap st)(a := None)\<rparr>)"
  using assms(1) live_values_all_raw [of c g, OF assms(2)]
  by (simp add: Deallocate_def)

lemma set_data_run:
  "this < length (objs st) \<Longrightarrow>
   set_data this d st = (Inr (), st\<lparr>objs := (objs st)[this := (objs st ! this)\<lparr>m_data := d\<rparr>]\<rparr>)"
  by (simp add: set_data_def bnd_def this_obj_def put_obj_def)

lemma set_size_run:
  "this < length (objs st) \<Longrightarrow>
   set_size this n st = (Inr (), st\<lparr>objs := (objs st)[this := (objs st ! this)\<lparr>m_size := n\<rparr>]\<rparr>)"
  by (simp add: set_size_def bnd_def this_obj_def put_obj_def)

lemma holds_Some_cases:
  assumes "holds st this b c xs" and "0 < c"
  obtains a where "b = Some a" "a < brk st" "heap st a = Some (filled xs c)"
  using assms by (cases b) (auto simp: holds_def)

lemmas run_defs = bnd_def seqn_def on_throw_def Capacity_def RawMemory_Capacity_def
  RawMemory_plus_def RawMemory_at_def RawMemory_Swap_def GetAddress_def RawMemory_dtor_def

lemma EmplaceBack_spare:
  assumes h: "holds st this b c xs" and q: "fuse st = None" and sp: "length xs < c"
    and sm: "length xs < 2 ^ 31"
  shows "EmplaceBack tr this (Val v) st =
    (Inr (b, length xs),
     st\<lparr>heap := (heap st)(the b \<mapsto> filled (xs @ [v]) c),
        objs := (objs st)[this := \<lparr>m_data = \<lparr>m_buffer = b, m_capacity = c\<rparr>, m_size = Suc (length xs)\<rparr>]\<rparr>)"
proof -
  from h sp obtain a where b: "b = Some a" and ha: "heap st a = Some (filled xs c)"
    by (elim holds_Some_cases) auto
  from h have lt: "this < length (objs st)"
    and ob: "objs st ! this = \<lparr>m_data = \<lparr>m_buffer = b, m_capacity = c\<rparr>, m_size = length xs\<rparr>"
    by (simp_all add: holds_def)
  have raw: "filled xs c ! length xs = Raw"
    using sp by (simp add: filled_def nth_append)
  have upd: "(filled xs c)[length xs := Live v] = filled (xs @ [v]) c"
    using sp by (intro nth_equalityI) (auto simp: filled_def nth_append nth_list_update)
  have c: "construct_from (Some a, length xs) (Val v) st =
      (Inr (), st\<lparr>heap := (heap st)(a \<mapsto> filled (xs @ [v]) c)\<rparr>)"
    using ha sp raw q upd
    by (simp add: construct_from_def seqn_def bnd_def emplace_obj_def slot_at_def put_slot_def)
  show ?thesis
    using this_obj_holds [OF h] sp c b lt ob sm
    by (simp add: EmplaceBack_def bnd_def seqn_def Capacity_def RawMemory_Capacity_def
        RawMemory_plus_def RawMemory_at_def set_size_run int_simps)
qed


lemma uninit_loop_zero [simp]: "uninit_loop build undo i 0 st = (Inr (), st)"
  by simp

lemma MoveOrCopyUninitialized_zero [simp]: "MoveOrCopyUninitialized tr p 0 p' st = (Inr (), st)"
  by (simp add: MoveOrCopyUninitialized_def counted_def uninitialized_move_n_def
      uninitialized_copy_n_def)

lemma DestroyN_zero [simp]: "DestroyN p 0 st = (Inr (), st)"
  by (simp add: DestroyN_def)

lemma released_None [simp]: "released None h = h"
  by (simp add: released_def)

lemma released_Some [simp]: "released (Some a) h = h(a := None)"
  by (simp add: released_def)

lemma construct_from_block:
  "heap st a = Some (map g [0..<c]) \<Longrightarrow> fuse st = None \<Longrightarrow> i < c \<Longrightarrow> g i = Raw \<Longrightarrow>
   construct_from (Some a, i) (Val v) st =
     (Inr (), st\<lparr>heap := (heap st)(a \<mapsto> map (g(i := Live v)) [0..<c])\<rparr>)"
  by (simp add: construct_from_def seqn_def bnd_def emplace_obj_block)

lemma EmplaceBack_full:
  assumes h: "holds st this b c xs" and q: "fuse st = None" and full: "length xs = c"
    and g: "growable tr c"
  shows "EmplaceBack tr this (Val v) st =
    (Inr (Some (brk st), c),
     st\<lparr>heap := released b ((heap st)(brk st \<mapsto> filled (xs @ [v]) (if c = 0 then 1 else c * 2))),
        brk := Suc (brk st),
        objs := (objs st)[this := \<lparr>m_data = \<lparr>m_buffer = Some (brk st),
                    m_capacity = (if c = 0 then 1 else c * 2)\<rparr>, m_size = Suc c\<rparr>]\<rparr>)"
    (is "_ = ?goal")
proof -
  define c' where "c' = (if c = 0 then 1 else c * 2)"
  let ?b' = "brk st"
  have c'pos: "c' \<noteq> 0" and cc': "c < c'" by (auto simp: c'_def)
  have cap: "(if c = 0 then 1 else c * 2) = c'" "(if c = 0 then Suc 0 else c * 2) = c'"
    by (simp_all add: c'_def)
  from h have lt: "this < length (objs st)"
    and ob: "objs st ! this = \<lparr>m_data = \<lparr>m_buffer = b, m_capacity = c\<rparr>, m_size = c\<rparr>"
    by (simp_all add: holds_def full)
  define V where "V = \<lparr>m_data = \<lparr>m_buffer = b, m_capacity = c\<rparr>, m_size = c\<rparr>"
  define ND where "ND = \<lparr>m_buffer = Some ?b', m_capacity = c'\<rparr>"
  define st1 where "st1 = st\<lparr>heap := (heap st)(?b' \<mapsto> map (\<lambda>_. Raw) [0..<c']), brk := Suc ?b'\<rparr>"
  define gN where "gN = (\<lambda>i. if i < c then Live (xs ! i) else if i = c then Live v else Raw)"
  define st2 where "st2 = st1\<lparr>heap := (heap st1)(?b' \<mapsto> map ((\<lambda>_. Raw)(c := Live v)) [0..<c'])\<rparr>"
  have s0: "this_obj this st = (Inr V, st)"
    using this_obj_holds [OF h] by (simp add: V_def full)
  note sm = growable_int [OF g]
  have al: "allocatable tr c'"
    using growable_allocatable [OF g] by (simp add: c'_def)
  have s1: "RawMemory_ctor tr c' st = (Inr ND, st1)"
    using RawMemory_ctor_quiet [OF c'pos q al] by (simp add: ND_def st1_def )
  have s2: "construct_from (Some ?b', c) (Val v) st1 = (Inr (), st2)"
    unfolding st2_def by (rule construct_from_block) (use q cc' in \<open>simp_all add: st1_def\<close>)
  have fin: "map gN [0..<c'] = filled (xs @ [v]) c'"
    by (rule map_as_filled) (use cc' full in \<open>auto simp: gN_def nth_append\<close>)
  show ?thesis
  proof (cases b)
    case None
    with h full have c0: "c = 0" by (simp add: holds_def)
    have "(\<lambda>_. Raw)(c := Live v) = gN"
      using c0 by (auto simp: gN_def fun_eq_iff)
    then have "st2 = st\<lparr>heap := (heap st)(?b' \<mapsto> map gN [0..<c']), brk := Suc ?b'\<rparr>"
      unfolding st2_def st1_def by simp
    then have st2': "st2 = st\<lparr>heap := (heap st)(?b' \<mapsto> filled (xs @ [v]) c'), brk := Suc ?b'\<rparr>"
      by (simp add: fin)
    have len2: "this < length (objs st2)" using lt by (simp add: st2')
    show ?thesis
      using s0 s1 s2 None c0 cc' lt ob
      by (simp add: EmplaceBack_def bnd_def seqn_def on_throw_def Capacity_def RawMemory_Capacity_def
          RawMemory_plus_def RawMemory_at_def RawMemory_Swap_def GetAddress_def V_def ND_def
          set_data_run set_size_run RawMemory_dtor_def Deallocate_def st2' c'_def size_t_def)
  next
    case (Some a)
    with h have ha: "heap st a = Some (filled xs c)" and abrk: "a < brk st"
      by (simp_all add: holds_def)
    have ab: "a \<noteq> ?b'" using abrk by (simp add: )
    define gA where "gA = (\<lambda>i. if i < c then Live (xs ! i) else Raw)"
    have ha': "heap st a = Some (map gA [0..<c])"
      using ha full by (simp add: filled_as_map gA_def)
    define gA' where "gA' = (\<lambda>i. if (nothrow_move_constructible tr \<or> \<not> copy_constructible tr) \<and> 0 \<le> i \<and> i < 0 + c
                      then map_slot (moved_from tr) (gA i) else gA i)"
    define gB' where "gB' = (\<lambda>i. if 0 \<le> i \<and> i < 0 + c then gA (0 + (i - 0)) else ((\<lambda>_. Raw)(c := Live v)) i)"
    define st3 where "st3 = st2\<lparr>heap := (heap st2)(a \<mapsto> map gA' [0..<c], ?b' \<mapsto> map gB' [0..<c'])\<rparr>"
    have s3: "MoveOrCopyUninitialized tr (Some a, 0) (int c) (Some ?b', 0) st2 = (Inr (), st3)"
      unfolding st3_def gA'_def gB'_def
      by (rule MoveOrCopyUninitialized_blocks)
        (use ha' ab q cc' in \<open>auto simp: st2_def st1_def gA_def\<close>)
    define st4 where "st4 = st3\<lparr>heap := (heap st3)(a \<mapsto> map (\<lambda>i. if 0 \<le> i \<and> i < 0 + c then Raw else gA' i) [0..<c])\<rparr>"
    have s4: "DestroyN (Some a, 0) c st3 = (Inr (), st4)"
      unfolding st4_def
      by (rule DestroyN_block) (use ab in \<open>auto simp: st3_def gA'_def gA_def\<close>)
    have gB: "gB' = gN" by (auto simp: gB'_def gN_def gA_def fun_eq_iff)
    have st4': "st4 = st\<lparr>heap := (heap st)(a \<mapsto> map (\<lambda>i. if 0 \<le> i \<and> i < 0 + c then Raw else gA' i) [0..<c],
          ?b' \<mapsto> filled (xs @ [v]) c'), brk := Suc ?b'\<rparr>"
      using ab by (simp add: st4_def st3_def st2_def st1_def gB fin fun_upd_twist)
    have lv: "live_values (map (\<lambda>i. if i < c then Raw else gA' i) [0..<c]) = []"
      by (rule live_values_all_raw) simp
    have fh: "((heap st)(a \<mapsto> x, ?b' \<mapsto> y))(a := None) = ((heap st)(?b' \<mapsto> y))(a := None)" for x y
      using ab by (auto simp: fun_eq_iff)
    have run: "EmplaceBack tr this (Val v) st =
      (Inr (Some ?b', c),
       st\<lparr>heap := ((heap st)(?b' \<mapsto> filled (xs @ [v]) c'))(a := None), brk := Suc ?b',
          objs := (objs st)[this := \<lparr>m_data = \<lparr>m_buffer = Some ?b', m_capacity = c'\<rparr>,
                     m_size = Suc c\<rparr>]\<rparr>)"
      using s0 s1 s2 s3 s4 Some cc' lt ob ab sm
      apply (cases "c = 0")
       apply (simp_all add: EmplaceBack_def run_defs V_def ND_def set_data_run set_size_run c'_def
          int_simps)
       apply (simp_all add: run_defs st4' [unfolded c'_def] set_data_run set_size_run)
       apply (simp_all add: run_defs Deallocate_def lv fh)
      done
    then show ?thesis using Some by (simp add: c'_def)
  qed
qed

lemma EmplaceBack_holds:
  assumes h: "holds st this b c xs" and q: "fuse st = None" and g: "growable tr (length xs)"
  shows "\<exists>st' b' c'. EmplaceBack tr this (Val v) st = (Inr (b', length xs), st') \<and>
           holds st' this b' c' (xs @ [v]) \<and> fuse st' = None \<and>
           c' = (if length xs < c then c else if c = 0 then 1 else c * 2)"
proof (cases "length xs < c")
  case True
  from h True obtain a where b: "b = Some a" and abrk: "a < brk st"
    by (elim holds_Some_cases) auto
  from h have lt: "this < length (objs st)" by (simp add: holds_def)
  have "holds (st\<lparr>heap := (heap st)(the b \<mapsto> filled (xs @ [v]) c),
        objs := (objs st)[this := \<lparr>m_data = \<lparr>m_buffer = b, m_capacity = c\<rparr>, m_size = Suc (length xs)\<rparr>]\<rparr>)
      this b c (xs @ [v])"
    using True b abrk lt by (simp add: holds_def)
  with EmplaceBack_spare [OF h q True growable_int [OF g], of tr v] q True show ?thesis by simp
next
  case False
  with h have full: "length xs = c" by (simp add: holds_def)
  from h have lt: "this < length (objs st)" by (simp add: holds_def)
  have nb: "b \<noteq> Some (brk st)" using h by (auto simp: holds_def)
  have hh: "holds (st\<lparr>heap := released b ((heap st)(brk st \<mapsto> filled (xs @ [v]) (if c = 0 then 1 else c * 2))),
        brk := Suc (brk st),
        objs := (objs st)[this := \<lparr>m_data = \<lparr>m_buffer = Some (brk st),
                    m_capacity = (if c = 0 then 1 else c * 2)\<rparr>, m_size = Suc c\<rparr>]\<rparr>)
      this (Some (brk st)) (if c = 0 then 1 else c * 2) (xs @ [v])"
    using full lt nb by (cases b) (auto simp: holds_def)
  from g full have "growable tr c" by simp
  with hh EmplaceBack_full [OF h q full, of tr v] q full show ?thesis by simp
qed

lemma holds_size: "holds st this b c xs \<Longrightarrow> m_size (objs st ! this) = length xs"
  by (simp add: holds_def)

lemma push_all_holds:
  assumes "holds st this b c xs" and "fuse st = None"
    and "\<And>n. n < length xs + length vals \<Longrightarrow> growable tr n"
  shows "\<exists>st' b' c'. push_all tr this vals st = (Inr (), st') \<and>
           holds st' this b' c' (xs @ vals) \<and> fuse st' = None"
  using assms
proof (induction vals arbitrary: st b c xs)
  case Nil
  then show ?case by auto
next
  case (Cons v vals)
  have g: "growable tr (length xs)"
    by (rule Cons.prems(3)) simp
  from EmplaceBack_holds [OF Cons.prems(1,2) g, of v] obtain st1 b1 c1
    where e: "EmplaceBack tr this (Val v) st = (Inr (b1, length xs), st1)"
      and h1: "holds st1 this b1 c1 (xs @ [v])" and q1: "fuse st1 = None"
    by blast
  have g1: "growable tr n" if "n < length (xs @ [v]) + length vals" for n
    by (rule Cons.prems(3)) (use that in simp)
  from Cons.IH [OF h1 q1 g1] obtain st' b' c'
    where "push_all tr this vals st1 = (Inr (), st')"
      and "holds st' this b' c' ((xs @ [v]) @ vals)" and "fuse st' = None"
    by blast
  with e show ?case by (auto simp: PushBack_def seqn_def bnd_def)
qed

lemma read_at_holds:
  assumes h: "holds st this b c xs" and i: "i < length xs"
  shows "read_at this i st = (Inr (xs ! i), st)"
proof -
  from h have le: "length xs \<le> c" by (simp add: holds_def)
  with i have "0 < c" by simp
  with h obtain a where b: "b = Some a" and ha: "heap st a = Some (filled xs c)"
    by (elim holds_Some_cases)
  have "filled xs c ! i = Live (xs ! i)" using i by (simp add: filled_def nth_append)
  then have "load (Some a, i) st = (Inr (xs ! i), st)"
    using ha i le by (simp add: load_def slot_at_def)
  then show ?thesis
    using this_obj_holds [OF h] i le b
    by (simp add: read_at_def Vector_at_def bnd_def RawMemory_at_def)
qed

lemma Vector_ctor_holds:
  "Vector_ctor st = (Inr (length (objs st)), st\<lparr>objs := objs st @ [\<lparr>m_data = RawMemory_default, m_size = 0\<rparr>]\<rparr>) \<and>
   holds (st\<lparr>objs := objs st @ [\<lparr>m_data = RawMemory_default, m_size = 0\<rparr>]\<rparr>) (length (objs st)) None 0 []"
  by (simp add: Vector_ctor_def new_obj_def holds_def RawMemory_default_def)


section \<open>Normal returns do not depend on the fuse\<close>

named_theorems erasable_intros

lemma blind_erasable: "blind m \<Longrightarrow> erasable m"
  unfolding blind_def erasable_def quiet_def
  by (metis fst_conv snd_conv)

lemma erasable_ret [erasable_intros]: "erasable (ret x)"
  by (simp add: erasable_def)

lemma erasable_raise [erasable_intros]: "erasable (raise e)"
  by (simp add: erasable_def)

lemma erasable_tick [erasable_intros]: "erasable tick"
  by (auto simp: erasable_def tick_def quiet_def split: option.splits nat.splits)

lemma bnd_InrD:
  "bnd m f st = (Inr r, st') \<Longrightarrow> \<exists>x s1. m st = (Inr x, s1) \<and> f x s1 = (Inr r, st')"
  by (auto simp: bnd_def split: prod.splits sum.splits)

lemma erasable_bnd [erasable_intros]:
  assumes "erasable m" and "\<And>x. erasable (f x)"
  shows "erasable (bnd m f)"
  unfolding erasable_def
proof (intro allI impI)
  fix st r st'
  assume "bnd m f st = (Inr r, st')"
  then obtain x s1 where 1: "m st = (Inr x, s1)" and 2: "f x s1 = (Inr r, st')"
    by (blast dest: bnd_InrD)
  from assms(1) 1 have "m (quiet st) = (Inr x, quiet s1)" by (simp add: erasable_def)
  moreover from assms(2) [of x] 2 have "f x (quiet s1) = (Inr r, quiet st')" by (simp add: erasable_def)
  ultimately show "bnd m f (quiet st) = (Inr r, quiet st')" by (simp add: bnd_def)
qed

lemma erasable_seqn [erasable_intros]: "erasable m \<Longrightarrow> erasable n \<Longrightarrow> erasable (seqn m n)"
  by (simp add: seqn_def erasable_bnd)

lemma on_throw_InrD: "on_throw m h st = (Inr r, st') \<Longrightarrow> m st = (Inr r, st')"
  by (auto simp: on_throw_def split: prod.splits sum.splits exn.splits)

lemma erasable_on_throw [erasable_intros]:
  assumes "erasable m"
  shows "erasable (on_throw m h)"
  unfolding erasable_def
proof (intro allI impI)
  fix st r st'
  assume "on_throw m h st = (Inr r, st')"
  then have "m st = (Inr r, st')" by (rule on_throw_InrD)
  with assms have "m (quiet st) = (Inr r, quiet st')" by (simp add: erasable_def)
  then show "on_throw m h (quiet st) = (Inr r, quiet st')" by (simp add: on_throw_def)
qed

lemma erasable_if [erasable_intros]:
  "erasable m \<Longrightarrow> erasable n \<Longrightarrow> erasable (if c then m else n)"
  by simp

lemma erasable_case_prod [erasable_intros]:
  "(\<And>a b. erasable (f a b)) \<Longrightarrow> erasable (case p of (a, b) \<Rightarrow> f a b)"
  by (cases p) simp

lemma erasable_Let [erasable_intros]: "erasable (f x) \<Longrightarrow> erasable (Let x f)"
  by simp

lemma erasable_for_loop [erasable_intros]:
  "(\<And>i. erasable (body i)) \<Longrightarrow> erasable (for_loop i k body)"
  by (induction k arbitrary: i) (simp_all add: erasable_intros)

lemma erasable_uninit_loop [erasable_intros]:
  "(\<And>i. erasable (build i)) \<Longrightarrow> erasable (uninit_loop build undo i k)"
  by (induction k arbitrary: i) (simp_all add: erasable_intros)

lemma slot_at_fuse [simp]: "slot_at p (st\<lparr>fuse := f\<rparr>) = slot_at p st"
  by (simp add: slot_at_def split: option.splits)

lemma put_slot_fuse [simp]: "put_slot p s (st\<lparr>fuse := f\<rparr>) = (put_slot p s st)\<lparr>fuse := f\<rparr>"
  by (simp add: put_slot_def split: option.splits)

lemma erasable_load [erasable_intros]: "erasable (load p)"
  by (rule blind_erasable) (simp add: blind_def load_def split: option.splits slot.splits)

lemma erasable_emplace_obj [erasable_intros]: "erasable (emplace_obj p v)"
  by (rule blind_erasable) (simp add: blind_def emplace_obj_def split: option.splits slot.splits)

lemma erasable_assign_obj [erasable_intros]: "erasable (assign_obj p v)"
  by (rule blind_erasable) (simp add: blind_def assign_obj_def split: option.splits slot.splits)

lemma erasable_Destroy [erasable_intros]: "erasable (Destroy p)"
  by (rule blind_erasable) (simp add: blind_def Destroy_def split: option.splits slot.splits)

lemma erasable_ptr_minus [erasable_intros]: "erasable (ptr_minus p k)"
  by (simp add: ptr_minus_def erasable_intros)

lemma erasable_ptr_diff [erasable_intros]: "erasable (ptr_diff p q)"
  by (simp add: ptr_diff_def erasable_intros)

lemma erasable_ptr_add [erasable_intros]: "erasable (ptr_add p k)"
  by (simp add: ptr_add_def erasable_intros)

lemma erasable_counted [erasable_intros]: "(\<And>n. erasable (f n)) \<Longrightarrow> erasable (counted k f)"
  by (simp add: counted_def erasable_intros)

lemma erasable_deref [erasable_intros]: "erasable (deref a)"
  by (cases a) (simp_all add: erasable_intros del: ret_apply)

lemma erasable_Allocate [erasable_intros]: "erasable (Allocate tr n)"
proof -
  have "erasable (\<lambda>st. (Inr (Some (brk st)),
      st\<lparr>heap := (heap st)(brk st \<mapsto> replicate k Raw), brk := Suc (brk st)\<rparr>))" for k
    by (rule blind_erasable) (simp add: blind_def)
  then show ?thesis by (auto simp: Allocate_def intro!: erasable_intros)
qed

lemma erasable_Deallocate [erasable_intros]: "erasable (Deallocate b)"
  by (rule blind_erasable) (simp add: blind_def Deallocate_def split: option.splits)

lemma erasable_this_obj [erasable_intros]: "erasable (this_obj this)"
  by (rule blind_erasable) (simp add: blind_def this_obj_def)

lemma erasable_put_obj [erasable_intros]: "erasable (put_obj this v)"
  by (rule blind_erasable) (simp add: blind_def put_obj_def)

lemma erasable_new_obj [erasable_intros]: "erasable (new_obj v)"
  by (rule blind_erasable) (simp add: blind_def new_obj_def)

lemma erasable_pop_obj [erasable_intros]: "erasable pop_obj"
  by (rule blind_erasable) (simp add: blind_def pop_obj_def)

lemma erasable_Vector_Swap [erasable_intros]: "erasable (Vector_Swap this other)"
  by (rule blind_erasable) (simp add: blind_def Vector_Swap_def Let_def)

lemmas erasable_unfolds =
  construct_from_def copy_construct_def move_construct_def copy_assign_def move_assign_def
  value_construct_def default_construct_def DestroyN_def CopyConstruct_def
  uninitialized_copy_n_def uninitialized_move_n_def uninitialized_value_construct_n_def
  uninitialized_default_construct_n_def copy_n_def std_move_def move_backward_def
  RawMemory_ctor_def RawMemory_dtor_def RawMemory_plus_def RawMemory_at_def
  set_data_def set_size_def Vector_begin_def Vector_end_def Vector_at_def
  MoveOrCopyUninitialized_def

lemma erasable_Reserve [erasable_intros]: "erasable (Reserve tr this n)"
  unfolding Reserve_def erasable_unfolds by (intro erasable_intros)

lemma erasable_EmplaceBack [erasable_intros]: "erasable (EmplaceBack tr this v)"
  unfolding EmplaceBack_def erasable_unfolds by (intro erasable_intros)

lemma erasable_PushBack [erasable_intros]: "erasable (PushBack tr this v)"
  unfolding PushBack_def by (intro erasable_intros)

lemma erasable_PopBack [erasable_intros]: "erasable (PopBack this)"
  unfolding PopBack_def erasable_unfolds by (intro erasable_intros)

lemma erasable_Resize [erasable_intros]: "erasable (Resize tr this n)"
  unfolding Resize_def erasable_unfolds by (intro erasable_intros)

lemma erasable_InsertionWithRelocation [erasable_intros]:
  "erasable (InsertionWithRelocation tr this k v)"
  unfolding InsertionWithRelocation_def erasable_unfolds by (intro erasable_intros)

lemma erasable_InsertionWithoutRelocation [erasable_intros]:
  "erasable (InsertionWithoutRelocation tr this k v)"
  unfolding InsertionWithoutRelocation_def erasable_unfolds by (intro erasable_intros)

lemma erasable_Emplace [erasable_intros]: "erasable (Emplace tr this pos v)"
  unfolding Emplace_def erasable_unfolds by (intro erasable_intros)

lemma erasable_Insert [erasable_intros]: "erasable (Insert tr this pos v)"
  unfolding Insert_def by (intro erasable_intros)

lemma erasable_Erase [erasable_intros]: "erasable (Erase tr this pos)"
  unfolding Erase_def erasable_unfolds by (intro erasable_intros)

lemma erasable_Vector_ctor [erasable_intros]: "erasable Vector_ctor"
  unfolding Vector_ctor_def by (intro erasable_intros)

lemma erasable_Vector_sized_ctor [erasable_intros]: "erasable (Vector_sized_ctor tr n)"
  unfolding Vector_sized_ctor_def erasable_unfolds by (intro erasable_intros)

lemma erasable_Vector_copy_ctor [erasable_intros]: "erasable (Vector_copy_ctor tr other)"
  unfolding Vector_copy_ctor_def erasable_unfolds by (intro erasable_intros)

lemma erasable_Vector_move_ctor [erasable_intros]: "erasable (Vector_move_ctor other)"
  unfolding Vector_move_ctor_def erasable_unfolds by (intro erasable_intros)

lemma erasable_Vector_dtor [erasable_intros]: "erasable (Vector_dtor this)"
  unfolding Vector_dtor_def erasable_unfolds by (intro erasable_intros)

lemma erasable_Vector_copy_assign [erasable_intros]: "erasable (Vector_copy_assign tr this other)"
  unfolding Vector_copy_assign_def erasable_unfolds by (intro erasable_intros)

lemma erasable_Vector_move_assign [erasable_intros]: "erasable (Vector_move_assign this other)"
  unfolding Vector_move_assign_def by (intro erasable_intros)

lemma erasable_push_all [erasable_intros]: "erasable (push_all tr this vals)"
  by (induction vals) (auto intro!: erasable_intros simp del: ret_apply)

lemma erasableD: "erasable m \<Longrightarrow> m st = (Inr r, st') \<Longrightarrow> m (quiet st) = (Inr r, quiet st')"
  by (simp add: erasable_def)

lemma holds_quiet [simp]: "holds (quiet st) this b c xs = holds st this b c xs"
  by (cases b) (simp_all add: holds_def quiet_def)

lemma elements_quiet [simp]: "elements (quiet st) this = elements st this"
  by (simp add: elements_def block_of_def quiet_def split: option.splits)

lemma objs_quiet [simp]: "objs (quiet st) = objs st"
  by (simp add: quiet_def)

lemma heap_quiet [simp]: "heap (quiet st) = heap st"
  by (simp add: quiet_def)

lemma brk_quiet [simp]: "brk (quiet st) = brk st"
  by (simp add: quiet_def)

lemma leaked_quiet [simp]: "leaked (quiet st) = leaked st"
  by (simp add: quiet_def)

lemma fuse_quiet [simp]: "fuse (quiet st) = None"
  by (simp add: quiet_def)

lemma vec_inv_quiet [simp]: "vec_inv (quiet st) this = vec_inv st this"
  by (simp add: vec_inv_def)

section \<open>Insertion and removal when nothing throws\<close>

lemma Vector_begin_holds:
  "holds st this b c xs \<Longrightarrow> Vector_begin this st = (Inr (b, 0), st)"
  by (simp add: Vector_begin_def bnd_def this_obj_holds GetAddress_def)

lemma Vector_end_holds:
  "holds st this b c xs \<Longrightarrow> Vector_end this st = (Inr (b, length xs), st)"
  by (simp add: Vector_end_def bnd_def this_obj_def RawMemory_plus_def holds_def)

lemma Erase_quiet:
  assumes h: "holds st this b c xs" and q: "fuse st = None" and k: "k < length xs"
  shows "Erase tr this (b, k) st =
    (Inr (b, k),
     st\<lparr>heap := (heap st)(the b \<mapsto> filled (take k xs @ drop (Suc k) xs) c),
        objs := (objs st)[this := (objs st ! this)\<lparr>m_size := length xs - 1\<rparr>]\<rparr>)"
proof -
  let ?n = "length xs"
  from h have le: "?n \<le> c" and lt: "this < length (objs st)"
    and ob: "objs st ! this = \<lparr>m_data = \<lparr>m_buffer = b, m_capacity = c\<rparr>, m_size = ?n\<rparr>"
    by (simp_all add: holds_def)
  from k le have "0 < c" by simp
  with h obtain a where b: "b = Some a" and ha: "heap st a = Some (filled xs c)"
    by (elim holds_Some_cases)
  define gA where "gA = (\<lambda>i. if i < ?n then Live (xs ! i) else Raw)"
  have ha': "heap st a = Some (map gA [0..<c])"
    using ha le by (simp add: filled_as_map gA_def)
  define g1 where "g1 = (\<lambda>i. if k \<le> i \<and> i < ?n - 1 then Live (xs ! (i + 1))
                 else if i = ?n - 1 \<and> k < ?n - 1 then Live (moved_from tr (xs ! i))
                 else gA i)"
  define st1 where "st1 = st\<lparr>heap := (heap st)(a \<mapsto> map g1 [0..<c])\<rparr>"
  have s1: "std_move tr (Some a, k + 1) (Some a, ?n) (Some a, k) st = (Inr (), st1)"
    unfolding st1_def g1_def
    by (rule std_move_block [OF ha' q k le]) (simp add: gA_def)
  have live: "\<exists>w. g1 (?n - 1) = Live w" using k by (auto simp: g1_def gA_def)
  then obtain w where w: "g1 (?n - 1) = Live w" ..
  have s2: "Destroy (Some a, ?n - 1) st1 =
      (Inr (), st1\<lparr>heap := (heap st1)(a \<mapsto> map (g1(?n - 1 := Raw)) [0..<c])\<rparr>)"
    by (rule Destroy_block [where w = w]) (use k le w in \<open>simp_all add: st1_def\<close>)
  have fin: "map (g1(?n - 1 := Raw)) [0..<c] = filled (take k xs @ drop (Suc k) xs) c"
    by (rule map_as_filled) (use k le in \<open>auto simp: g1_def gA_def nth_append min_def\<close>)
  have p: "PopBack this st1 = (Inr (),
      st\<lparr>heap := (heap st)(a \<mapsto> filled (take k xs @ drop (Suc k) xs) c),
         objs := (objs st)[this := (objs st ! this)\<lparr>m_size := ?n - 1\<rparr>]\<rparr>)"
  proof -
    have ne: "xs \<noteq> []" and le1: "?n - 1 \<le> c" using k le by auto
    show ?thesis
      using s2 ne le1 lt ob fin b
      by (simp add: PopBack_def bnd_def seqn_def this_obj_def Size_def RawMemory_plus_def
          set_size_run st1_def)
  qed
  have b1: "Vector_begin this st1 = (Inr (Some a, 0), st1)"
    and e1: "Vector_end this st1 = (Inr (Some a, ?n), st1)"
    using lt ob le b
    by (simp_all add: Vector_begin_def Vector_end_def bnd_def this_obj_def GetAddress_def
        RawMemory_plus_def st1_def)
  show ?thesis
    using Vector_begin_holds [OF h] Vector_end_holds [OF h] s1 p b lt ob
    by (simp add: Erase_def bnd_def seqn_def ptr_diff_def Vector_begin_def this_obj_def
        GetAddress_def)
qed


lemma move_construct_block:
  assumes h: "heap st a = Some (map g [0..<c])" and q: "fuse st = None"
    and ic: "i < c" and jc: "j < c" and ij: "i \<noteq> j"
    and src: "g j = Live v" and dst: "g i = Raw"
  shows "move_construct tr (Some a, i) (Some a, j) st =
    (Inr (), st\<lparr>heap := (heap st)(a \<mapsto> map (g(i := Live v, j := Live (moved_from tr v))) [0..<c])\<rparr>)"
proof -
  have l: "load (Some a, j) st = (Inr v, st)"
    by (rule load_block [OF h jc src])
  define S1 where "S1 = st\<lparr>heap := (heap st)(a \<mapsto> map (g(i := Live v)) [0..<c])\<rparr>"
  have e: "emplace_obj (Some a, i) v st = (Inr (), S1)"
    unfolding S1_def by (rule emplace_obj_block [OF h ic dst])
  have "assign_obj (Some a, j) (moved_from tr v) S1 =
      (Inr (), S1\<lparr>heap := (heap S1)(a \<mapsto> map ((g(i := Live v))(j := Live (moved_from tr v))) [0..<c])\<rparr>)"
    by (rule assign_obj_block [where w = v]) (use jc ij src in \<open>simp_all add: S1_def\<close>)
  with l e q show ?thesis
    by (simp add: move_construct_def bnd_def seqn_def S1_def)
qed

lemma nth_inserted:
  assumes "k \<le> length xs" and "i \<le> length xs"
  shows "(take k xs @ v # drop k xs) ! i = (if i < k then xs ! i else if i = k then v else xs ! (i - 1))"
proof -
  have "k + (i - k - 1) = i - 1" if "k < i" using that by arith
  then show ?thesis
    using assms by (auto simp: nth_append nth_Cons' min_def)
qed

lemma length_inserted [simp]: "length (take k xs @ v # drop k xs) = Suc (length xs)"
  by simp

lemma InsertionWithoutRelocation_quiet:
  assumes h: "holds st this b c xs" and q: "fuse st = None"
    and k: "k < length xs" and sp: "length xs < c" and sm: "length xs < 2 ^ 31"
  shows "InsertionWithoutRelocation tr this (int k) (Val v) st =
    (Inr (), st\<lparr>heap := (heap st)(the b \<mapsto> filled (take k xs @ v # drop k xs) c)\<rparr>)"
proof -
  let ?n = "length xs"
  from h have lt: "this < length (objs st)"
    and ob: "objs st ! this = \<lparr>m_data = \<lparr>m_buffer = b, m_capacity = c\<rparr>, m_size = ?n\<rparr>"
    by (simp_all add: holds_def)
  from sp have "0 < c" by simp
  with h obtain a where b: "b = Some a" and ha: "heap st a = Some (filled xs c)"
    by (elim holds_Some_cases)
  define gA where "gA = (\<lambda>i. if i < ?n then Live (xs ! i) else Raw)"
  have ha': "heap st a = Some (map gA [0..<c])"
    using ha sp by (simp add: filled_as_map gA_def)
  define x where "x = (\<lambda>i. if i = ?n - 1 then moved_from tr (xs ! i) else xs ! i)"
  define g1 where "g1 = gA(?n := Live (xs ! (?n - 1)), ?n - 1 := Live (moved_from tr (xs ! (?n - 1))))"
  define st1 where "st1 = st\<lparr>heap := (heap st)(a \<mapsto> map g1 [0..<c])\<rparr>"
  have s1: "move_construct tr (Some a, ?n) (Some a, ?n - 1) st = (Inr (), st1)"
    unfolding st1_def g1_def
    by (rule move_construct_block [OF ha' q]) (use k sp in \<open>auto simp: gA_def\<close>)
  define g2 where "g2 = (\<lambda>i. if k < i \<and> i \<le> ?n - 1 then Live (x (i - 1))
                 else if i = k \<and> k < ?n - 1 then Live (moved_from tr (x i))
                 else g1 i)"
  define st2 where "st2 = st1\<lparr>heap := (heap st1)(a \<mapsto> map g2 [0..<c])\<rparr>"
  have s2: "move_backward tr (Some a, k) (Some a, ?n - 1) (Some a, ?n - 1 + 1) st1 = (Inr (), st2)"
    unfolding st2_def g2_def
    by (rule move_backward_block) (use k sp q in \<open>auto simp: st1_def g1_def gA_def x_def\<close>)
  have n1: "?n - 1 + 1 = ?n" using k by simp
  have "\<exists>w. g2 k = Live w"
  proof (cases "k < ?n - 1")
    case True
    then show ?thesis by (simp add: g2_def)
  next
    case False
    with k have "k = ?n - 1" by simp
    then show ?thesis by (simp add: g2_def g1_def)
  qed
  then obtain w where w: "g2 k = Live w" ..
  have s3: "assign_obj (Some a, k) v st2 =
      (Inr (), st2\<lparr>heap := (heap st2)(a \<mapsto> map (g2(k := Live v)) [0..<c])\<rparr>)"
    by (rule assign_obj_block [where w = w]) (use k sp w in \<open>simp_all add: st2_def\<close>)
  have fin: "map (g2(k := Live v)) [0..<c] = filled (take k xs @ v # drop k xs) c"
  proof (rule map_as_filled)
    fix i assume "i < c"
    show "(g2(k := Live v)) i =
        (if i < length (take k xs @ v # drop k xs) then Live ((take k xs @ v # drop k xs) ! i) else Raw)"
    proof (cases "i \<le> ?n")
      case True
      with k show ?thesis
        by (auto simp: nth_inserted g2_def g1_def gA_def x_def)
    next
      case False
      with k show ?thesis by (auto simp: g2_def g1_def gA_def)
    qed
  qed (use sp in simp)
  have e0: "Vector_end this st = (Inr (Some a, ?n), st)"
    using Vector_end_holds [OF h] b by simp
  have b1: "Vector_begin this st1 = (Inr (Some a, 0), st1)"
    using lt ob b by (simp add: Vector_begin_def bnd_def this_obj_def GetAddress_def st1_def)
  have q2: "fuse st2 = None" using q by (simp add: st2_def st1_def)
  show ?thesis
    using this_obj_holds [OF h] e0 s1 b1 s2 [unfolded n1] s3 q2 k sp b fin sm
    by (simp add: InsertionWithoutRelocation_def bnd_def seqn_def ptr_minus_def RawMemory_at_def
        st2_def st1_def)
qed


lemma InsertionWithRelocation_quiet:
  assumes h: "holds st this b c xs" and q: "fuse st = None"
    and full: "length xs = c" and k: "k < c" and g: "growable tr c"
  shows "InsertionWithRelocation tr this (int k) (Val v) st =
    (Inr (),
     st\<lparr>heap := released b ((heap st)(brk st \<mapsto> filled (take k xs @ v # drop k xs) (c * 2))),
        brk := Suc (brk st),
        objs := (objs st)[this := \<lparr>m_data = \<lparr>m_buffer = Some (brk st), m_capacity = c * 2\<rparr>,
                    m_size = c\<rparr>]\<rparr>)"
proof -
  let ?b' = "brk st"
  define c' where "c' = c * 2"
  have c'pos: "c' \<noteq> 0" and cc': "c < c'" using k by (auto simp: c'_def)
  from h have lt: "this < length (objs st)"
    and ob: "objs st ! this = \<lparr>m_data = \<lparr>m_buffer = b, m_capacity = c\<rparr>, m_size = c\<rparr>"
    by (simp_all add: holds_def full)
  from k have "0 < c" by simp
  with h obtain a where b: "b = Some a" and abrk: "a < brk st" and ha: "heap st a = Some (filled xs c)"
    by (elim holds_Some_cases)
  have ab: "a \<noteq> ?b'" using abrk by simp
  define V where "V = \<lparr>m_data = \<lparr>m_buffer = Some a, m_capacity = c\<rparr>, m_size = c\<rparr>"
  define ND where "ND = \<lparr>m_buffer = Some ?b', m_capacity = c'\<rparr>"
  define mv where "mv \<longleftrightarrow> nothrow_move_constructible tr \<or> \<not> copy_constructible tr"
  define gA where "gA = (\<lambda>i. if i < c then Live (xs ! i) else Raw)"
  have ha': "heap st a = Some (map gA [0..<c])"
    using ha full by (simp add: filled_as_map gA_def)
  define st1 where "st1 = st\<lparr>heap := (heap st)(?b' \<mapsto> map (\<lambda>_. Raw) [0..<c']), brk := Suc ?b'\<rparr>"
  define gN0 where "gN0 = (\<lambda>_. Raw)(k := Live v)"
  define st2 where "st2 = st1\<lparr>heap := (heap st1)(?b' \<mapsto> map gN0 [0..<c'])\<rparr>"
  define gA1 where "gA1 = (\<lambda>i. if (nothrow_move_constructible tr \<or> \<not> copy_constructible tr) \<and> 0 \<le> i \<and> i < 0 + k
      then map_slot (moved_from tr) (gA i) else gA i)"
  define gB1 where "gB1 = (\<lambda>i. if 0 \<le> i \<and> i < 0 + k then gA (0 + (i - 0)) else gN0 i)"
  define st3 where "st3 = st2\<lparr>heap := (heap st2)(a \<mapsto> map gA1 [0..<c], ?b' \<mapsto> map gB1 [0..<c'])\<rparr>"
  define gA2 where "gA2 = (\<lambda>i. if (nothrow_move_constructible tr \<or> \<not> copy_constructible tr) \<and> k \<le> i \<and> i < k + (c - k)
      then map_slot (moved_from tr) (gA1 i) else gA1 i)"
  define gB2 where "gB2 = (\<lambda>i. if k + 1 \<le> i \<and> i < k + 1 + (c - k) then gA1 (k + (i - (k + 1))) else gB1 i)"
  define st4 where "st4 = st3\<lparr>heap := (heap st3)(a \<mapsto> map gA2 [0..<c], ?b' \<mapsto> map gB2 [0..<c'])\<rparr>"
  define gA3 where "gA3 = (\<lambda>i. if 0 \<le> i \<and> i < 0 + c then Raw else gA2 i)"
  define st5 where "st5 = st4\<lparr>heap := (heap st4)(a \<mapsto> map gA3 [0..<c])\<rparr>"
  have s0: "this_obj this st = (Inr V, st)"
    using this_obj_holds [OF h] b by (simp add: V_def full)
  note sm = growable_int [OF g]
  have al: "allocatable tr c'"
    using growable_allocatable [OF g] k by (simp add: c'_def)
  have s1: "RawMemory_ctor tr c' st = (Inr ND, st1)"
    using RawMemory_ctor_quiet [OF c'pos q al] by (simp add: ND_def st1_def)
  have s2: "construct_from (Some ?b', k) (Val v) st1 = (Inr (), st2)"
    unfolding st2_def gN0_def by (rule construct_from_block) (use q k cc' in \<open>simp_all add: st1_def\<close>)
  have s3: "MoveOrCopyUninitialized tr (Some a, 0) (int k) (Some ?b', 0) st2 = (Inr (), st3)"
    unfolding st3_def gA1_def gB1_def
    by (rule MoveOrCopyUninitialized_blocks)
      (use ha' ab q k cc' in \<open>auto simp: st2_def st1_def gA_def gN0_def\<close>)
  have s4: "MoveOrCopyUninitialized tr (Some a, k) (int (c - k)) (Some ?b', k + 1) st3 = (Inr (), st4)"
    unfolding st4_def gA2_def gB2_def
    by (rule MoveOrCopyUninitialized_blocks)
      (use ab q k cc' in \<open>auto simp: st3_def st2_def st1_def gA1_def gB1_def gA_def gN0_def c'_def\<close>)
  have s5: "DestroyN (Some a, 0) c st4 = (Inr (), st5)"
    unfolding st5_def gA3_def
    by (rule DestroyN_block) (use ab in \<open>auto simp: st4_def gA2_def gA1_def gA_def\<close>)
  have fin: "map gB2 [0..<c'] = filled (take k xs @ v # drop k xs) c'"
  proof (rule map_as_filled)
    fix i assume "i < c'"
    show "gB2 i = (if i < length (take k xs @ v # drop k xs)
        then Live ((take k xs @ v # drop k xs) ! i) else Raw)"
    proof (cases "i \<le> c")
      case True
      with k full show ?thesis
        by (auto simp: nth_inserted gB2_def gB1_def gA1_def gA_def gN0_def)
    next
      case False
      with k full show ?thesis by (auto simp: gB2_def gB1_def gA1_def gA_def gN0_def)
    qed
  qed (use full cc' in simp)
  have st5': "st5 = st\<lparr>heap := (heap st)(a \<mapsto> map gA3 [0..<c],
        ?b' \<mapsto> filled (take k xs @ v # drop k xs) c'), brk := Suc ?b'\<rparr>"
    using ab by (simp add: st5_def st4_def st3_def st2_def st1_def fin fun_upd_twist)
  have lv: "live_values (map gA3 [0..<c]) = []"
    by (rule live_values_all_raw) (simp add: gA3_def)
  have fh: "((heap st)(a \<mapsto> x, ?b' \<mapsto> y))(a := None) = ((heap st)(?b' \<mapsto> y))(a := None)" for x y
    using ab by (auto simp: fun_eq_iff)
  have ints: "size_t (int c * 2) = c'" "size_t (int k) = k"
      "to_int (int (size_t (int c - int k))) = int (c - k)"
    using k sm by (simp_all add: int_simps c'_def)
  have run: "InsertionWithRelocation tr this (int k) (Val v) st =
    (Inr (),
     st\<lparr>heap := ((heap st)(?b' \<mapsto> filled (take k xs @ v # drop k xs) c'))(a := None),
        brk := Suc ?b',
        objs := (objs st)[this := \<lparr>m_data = \<lparr>m_buffer = Some ?b', m_capacity = c'\<rparr>,
                    m_size = c\<rparr>]\<rparr>)"
    using s0 s1 s2 s3 s4 s5 k cc' lt ob ab \<open>0 < c\<close>
    apply (simp add: InsertionWithRelocation_def run_defs V_def ND_def ints)
    apply (simp add: run_defs st5' set_data_run)
    apply (simp add: run_defs Deallocate_def lv fh)
    done
  then show ?thesis using b by (simp add: c'_def)
qed

lemma Erase_holds:
  assumes h: "holds st this b c xs" and q: "fuse st = None" and k: "k < length xs"
  shows "\<exists>st'. Erase tr this (b, k) st = (Inr (b, k), st') \<and>
           holds st' this b c (take k xs @ drop (Suc k) xs) \<and> fuse st' = None"
proof -
  from h have le: "length xs \<le> c" and lt: "this < length (objs st)"
    and ob: "objs st ! this = \<lparr>m_data = \<lparr>m_buffer = b, m_capacity = c\<rparr>, m_size = length xs\<rparr>"
    by (simp_all add: holds_def)
  from k le have "0 < c" by simp
  with h obtain a where b: "b = Some a" and abrk: "a < brk st"
    by (elim holds_Some_cases)
  have len: "length (take k xs @ drop (Suc k) xs) = length xs - 1"
    using k by (simp add: min_def)
  have "holds (st\<lparr>heap := (heap st)(the b \<mapsto> filled (take k xs @ drop (Suc k) xs) c),
        objs := (objs st)[this := (objs st ! this)\<lparr>m_size := length xs - 1\<rparr>]\<rparr>)
      this b c (take k xs @ drop (Suc k) xs)"
    unfolding holds_def using b abrk lt ob le len by simp
  with Erase_quiet [OF h q k, of tr] q show ?thesis by simp
qed

lemma Emplace_holds:
  assumes h: "holds st this b c xs" and q: "fuse st = None" and k: "k \<le> length xs"
    and g: "growable tr (length xs)"
  shows "\<exists>st' b' c'. Emplace tr this (b, k) (Val v) st = (Inr (b', k), st') \<and>
           holds st' this b' c' (take k xs @ v # drop k xs) \<and> fuse st' = None \<and>
           c' = (if length xs < c then c else if c = 0 then 1 else c * 2)"
proof (cases "k = length xs")
  case True
  from EmplaceBack_holds [OF h q g, of v] obtain st' b' c'
    where e: "EmplaceBack tr this (Val v) st = (Inr (b', length xs), st')"
      and h': "holds st' this b' c' (xs @ [v])" and q': "fuse st' = None"
      and c': "c' = (if length xs < c then c else if c = 0 then 1 else c * 2)"
    by blast
  have "Emplace tr this (b, k) (Val v) st = (Inr (b', k), st')"
    using Vector_end_holds [OF h] Vector_end_holds [OF h'] e True
    by (simp add: Emplace_def bnd_def seqn_def ptr_minus_def)
  with h' q' c' True show ?thesis by auto
next
  case False
  with k have kn: "k < length xs" by simp
  note sm = growable_int [OF g]
  have ints: "to_int (int k) = int k" "size_t (int (length xs) + 1) = Suc (length xs)"
    using kn sm by (simp_all add: int_simps)
  from h have le: "length xs \<le> c" and lt: "this < length (objs st)"
    and ob: "objs st ! this = \<lparr>m_data = \<lparr>m_buffer = b, m_capacity = c\<rparr>, m_size = length xs\<rparr>"
    by (simp_all add: holds_def)
  from kn le have "0 < c" by simp
  with h obtain a where b: "b = Some a" and abrk: "a < brk st"
    by (elim holds_Some_cases)
  show ?thesis
  proof (cases "length xs < c")
    case True
    define st1 where "st1 = st\<lparr>heap := (heap st)(the b \<mapsto> filled (take k xs @ v # drop k xs) c)\<rparr>"
    define st2 where "st2 = st1\<lparr>objs := (objs st1)[this := (objs st1 ! this)\<lparr>m_size := length xs + 1\<rparr>]\<rparr>"
    have i: "InsertionWithoutRelocation tr this (int k) (Val v) st = (Inr (), st1)"
      unfolding st1_def by (rule InsertionWithoutRelocation_quiet [OF h q kn True sm])
    have s: "set_size this (length xs + 1) st1 = (Inr (), st2)"
      unfolding st2_def by (rule set_size_run) (use lt in \<open>simp add: st1_def\<close>)
    have h2: "holds st2 this b c (take k xs @ v # drop k xs)"
      unfolding holds_def using b abrk lt ob True kn by (simp add: st2_def st1_def min_def)
    have "Emplace tr this (b, k) (Val v) st = (Inr (b, k), st2)"
      using Vector_end_holds [OF h] Vector_begin_holds [OF h] Vector_begin_holds [OF h2]
        this_obj_holds [OF h] i s False True
      by (simp add: Emplace_def bnd_def seqn_def ptr_diff_def Capacity_def RawMemory_Capacity_def
          ints Let_def)
    with h2 q True show ?thesis by (auto simp: st2_def st1_def)
  next
    case nsp: False
    with le have full: "length xs = c" by simp
    define st1 where "st1 = st\<lparr>heap := released b ((heap st)(brk st \<mapsto> filled (take k xs @ v # drop k xs) (c * 2))),
        brk := Suc (brk st),
        objs := (objs st)[this := \<lparr>m_data = \<lparr>m_buffer = Some (brk st), m_capacity = c * 2\<rparr>,
                    m_size = c\<rparr>]\<rparr>"
    define st2 where "st2 = st1\<lparr>objs := (objs st1)[this := (objs st1 ! this)\<lparr>m_size := length xs + 1\<rparr>]\<rparr>"
    have kc: "k < c" using kn full by simp
    from g full have gc: "growable tr c" by simp
    have i: "InsertionWithRelocation tr this (int k) (Val v) st = (Inr (), st1)"
      unfolding st1_def by (rule InsertionWithRelocation_quiet [OF h q full kc gc])
    have s: "set_size this (length xs + 1) st1 = (Inr (), st2)"
      unfolding st2_def by (rule set_size_run) (use lt in \<open>simp add: st1_def\<close>)
    have h2: "holds st2 this (Some (brk st)) (c * 2) (take k xs @ v # drop k xs)"
      unfolding holds_def using b abrk lt full kn by (simp add: st2_def st1_def min_def)
    have "Emplace tr this (b, k) (Val v) st = (Inr (Some (brk st), k), st2)"
      using Vector_end_holds [OF h] Vector_begin_holds [OF h] Vector_begin_holds [OF h2]
        this_obj_holds [OF h] i s False full ints
      by (simp add: Emplace_def bnd_def seqn_def ptr_diff_def Capacity_def RawMemory_Capacity_def
          Let_def)
    with h2 q full \<open>0 < c\<close> show ?thesis by (auto simp: st2_def st1_def)
  qed
qed

lemma insert_then_erase_quiet:
  assumes h: "holds st this b c xs" and q: "fuse st = None" and k: "k \<le> length xs"
    and g: "growable tr (length xs)"
  shows "\<exists>r st' b' c'. seqn (insert_at tr this k (Val v)) (erase_at tr this k) st = (Inr r, st') \<and>
           holds st' this b' c' xs"
proof -
  from Emplace_holds [OF h q k g, of v] obtain st1 b1 c1
    where e: "Emplace tr this (b, k) (Val v) st = (Inr (b1, k), st1)"
      and h1: "holds st1 this b1 c1 (take k xs @ v # drop k xs)" and q1: "fuse st1 = None"
    by blast
  have k1: "k < length (take k xs @ v # drop k xs)" using k by simp
  from Erase_holds [OF h1 q1 k1, of tr] obtain st2
    where r: "Erase tr this (b1, k) st1 = (Inr (b1, k), st2)"
      and h2: "holds st2 this b1 c1 (take k (take k xs @ v # drop k xs) @ drop (Suc k) (take k xs @ v # drop k xs))"
    by blast
  have "take k (take k xs @ v # drop k xs) @ drop (Suc k) (take k xs @ v # drop k xs) = xs"
    using k by (simp add: min_def)
  with h2 have h2': "holds st2 this b1 c1 xs" by simp
  have "seqn (insert_at tr this k (Val v)) (erase_at tr this k) st = (Inr (b1, k), st2)"
    using Vector_begin_holds [OF h] Vector_begin_holds [OF h1] e r
    by (simp add: insert_at_def erase_at_def Insert_def seqn_def bnd_def)
  with h2' show ?thesis by blast
qed

lemma erasable_insert_at [erasable_intros]: "erasable (insert_at tr this k v)"
  unfolding insert_at_def erasable_unfolds by (intro erasable_intros)

lemma erasable_erase_at [erasable_intros]: "erasable (erase_at tr this k)"
  unfolding erase_at_def erasable_unfolds by (intro erasable_intros)

section \<open>Reserve and Resize when nothing throws\<close>

lemma Reserve_enough:
  "holds st this b c xs \<Longrightarrow> n \<le> c \<Longrightarrow> Reserve tr this n st = (Inr (), st)"
  by (simp add: Reserve_def bnd_def this_obj_holds Capacity_def RawMemory_Capacity_def)

lemma Reserve_grow:
  assumes h: "holds st this b c xs" and q: "fuse st = None" and n: "c < n"
    and al: "allocatable tr n" and sm: "length xs < 2 ^ 31"
  shows "Reserve tr this n st =
    (Inr (),
     st\<lparr>heap := released b ((heap st)(brk st \<mapsto> filled xs n)),
        brk := Suc (brk st),
        objs := (objs st)[this := \<lparr>m_data = \<lparr>m_buffer = Some (brk st), m_capacity = n\<rparr>,
                    m_size = length xs\<rparr>]\<rparr>)"
proof -
  let ?b' = "brk st"
  let ?m = "length xs"
  have npos: "n \<noteq> 0" using n by simp
  from h have lt: "this < length (objs st)" and le: "?m \<le> c"
    and ob: "objs st ! this = \<lparr>m_data = \<lparr>m_buffer = b, m_capacity = c\<rparr>, m_size = ?m\<rparr>"
    by (simp_all add: holds_def)
  define ND where "ND = \<lparr>m_buffer = Some ?b', m_capacity = n\<rparr>"
  define st1 where "st1 = st\<lparr>heap := (heap st)(?b' \<mapsto> map (\<lambda>_. Raw) [0..<n]), brk := Suc ?b'\<rparr>"
  have s1: "RawMemory_ctor tr n st = (Inr ND, st1)"
    using RawMemory_ctor_quiet [OF npos q al] by (simp add: ND_def st1_def)
  note ti = to_int_nat [OF sm]
  show ?thesis
  proof (cases b)
    case None
    with h have xs: "xs = []" by (auto simp: holds_def)
    have "map (\<lambda>_. Raw) [0..<n] = filled xs n"
      by (rule map_as_filled) (simp_all add: xs)
    then have st1': "st1 = st\<lparr>heap := (heap st)(?b' \<mapsto> filled xs n), brk := Suc ?b'\<rparr>"
      by (simp add: st1_def)
    show ?thesis
      using this_obj_holds [OF h] s1 None xs n lt ob
      by (simp add: Reserve_def run_defs ND_def set_data_run Deallocate_def st1')
  next
    case (Some a)
    with h have ha: "heap st a = Some (filled xs c)" and abrk: "a < brk st"
      by (simp_all add: holds_def)
    have ab: "a \<noteq> ?b'" using abrk by simp
    define gA where "gA = (\<lambda>i. if i < ?m then Live (xs ! i) else Raw)"
    have ha': "heap st a = Some (map gA [0..<c])"
      using ha le by (simp add: filled_as_map gA_def)
    define gA' where "gA' = (\<lambda>i. if (nothrow_move_constructible tr \<or> \<not> copy_constructible tr) \<and> 0 \<le> i \<and> i < 0 + ?m
                      then map_slot (moved_from tr) (gA i) else gA i)"
    define gB' where "gB' = (\<lambda>i. if 0 \<le> i \<and> i < 0 + ?m then gA (0 + (i - 0)) else Raw)"
    define st3 where "st3 = st1\<lparr>heap := (heap st1)(a \<mapsto> map gA' [0..<c], ?b' \<mapsto> map gB' [0..<n])\<rparr>"
    have s3: "MoveOrCopyUninitialized tr (Some a, 0) (int ?m) (Some ?b', 0) st1 = (Inr (), st3)"
      unfolding st3_def gA'_def gB'_def
      by (rule MoveOrCopyUninitialized_blocks)
        (use ha' ab q le n in \<open>auto simp: st1_def gA_def\<close>)
    define gA3 where "gA3 = (\<lambda>i. if 0 \<le> i \<and> i < 0 + ?m then Raw else gA' i)"
    define st4 where "st4 = st3\<lparr>heap := (heap st3)(a \<mapsto> map gA3 [0..<c])\<rparr>"
    have s4: "DestroyN (Some a, 0) ?m st3 = (Inr (), st4)"
      unfolding st4_def gA3_def
      by (rule DestroyN_block) (use ab le in \<open>auto simp: st3_def gA'_def gA_def\<close>)
    have fin: "map gB' [0..<n] = filled xs n"
      by (rule map_as_filled) (use le n in \<open>auto simp: gB'_def gA_def\<close>)
    have st4': "st4 = st\<lparr>heap := (heap st)(a \<mapsto> map gA3 [0..<c], ?b' \<mapsto> filled xs n), brk := Suc ?b'\<rparr>"
      using ab by (simp add: st4_def st3_def st1_def fin fun_upd_twist)
    have lv: "live_values (map gA3 [0..<c]) = []"
      by (rule live_values_all_raw) (simp add: gA3_def gA'_def gA_def)
    have fh: "((heap st)(a \<mapsto> x, ?b' \<mapsto> y))(a := None) = ((heap st)(?b' \<mapsto> y))(a := None)" for x y
      using ab by (auto simp: fun_eq_iff)
    show ?thesis
      using this_obj_holds [OF h] s1 s3 s4 Some n lt ob ab
      apply (simp add: Reserve_def run_defs ND_def ti)
      apply (simp add: run_defs st4' set_data_run)
      apply (simp add: run_defs Deallocate_def lv fh)
      done
  qed
qed

lemma Reserve_holds:
  assumes h: "holds st this b c xs" and q: "fuse st = None"
    and al: "allocatable tr n" and sm: "length xs < 2 ^ 31"
  shows "\<exists>st' b'. Reserve tr this n st = (Inr (), st') \<and> holds st' this b' (max c n) xs \<and>
           fuse st' = None \<and> length (objs st') = length (objs st)"
proof (cases "n \<le> c")
  case True
  with Reserve_enough [OF h True, of tr] h q show ?thesis by (auto simp: max_def)
next
  case False
  then have n: "c < n" by simp
  from h have lt: "this < length (objs st)" and le: "length xs \<le> c" by (simp_all add: holds_def)
  have nb: "b \<noteq> Some (brk st)" using h by (auto simp: holds_def)
  have "holds (st\<lparr>heap := released b ((heap st)(brk st \<mapsto> filled xs n)),
        brk := Suc (brk st),
        objs := (objs st)[this := \<lparr>m_data = \<lparr>m_buffer = Some (brk st), m_capacity = n\<rparr>,
                    m_size = length xs\<rparr>]\<rparr>) this (Some (brk st)) n xs"
    using lt le n nb by (cases b) (auto simp: holds_def)
  with Reserve_grow [OF h q n al sm] q n show ?thesis by (auto simp: max_def)
qed


lemma Resize_shrink:
  assumes h: "holds st this b c xs" and n: "n \<le> length xs"
  shows "\<exists>st'. Resize tr this n st = (Inr (), st') \<and> holds st' this b c (take n xs) \<and>
           fuse st' = fuse st"
proof -
  let ?m = "length xs"
  from h have lt: "this < length (objs st)" and le: "?m \<le> c"
    and ob: "objs st ! this = \<lparr>m_data = \<lparr>m_buffer = b, m_capacity = c\<rparr>, m_size = ?m\<rparr>"
    by (simp_all add: holds_def)
  show ?thesis
  proof (cases b)
    case None
    with h have xs: "xs = []" by (auto simp: holds_def)
    with n have n0: "n = 0" by simp
    have "(objs st)[this := \<lparr>m_data = \<lparr>m_buffer = b, m_capacity = c\<rparr>, m_size = 0\<rparr>] = objs st"
      using ob xs by (metis list.size(3) list_update_id)
    then have "Resize tr this n st = (Inr (), st)"
      using this_obj_holds [OF h] xs n0 lt ob
      by (simp add: Resize_def run_defs set_size_run)
    with h xs show ?thesis by auto
  next
    case (Some a)
    with h have ha: "heap st a = Some (filled xs c)" and abrk: "a < brk st"
      by (simp_all add: holds_def)
    define gA where "gA = (\<lambda>i. if i < ?m then Live (xs ! i) else Raw)"
    have ha': "heap st a = Some (map gA [0..<c])"
      using ha le by (simp add: filled_as_map gA_def)
    define g1 where "g1 = (\<lambda>i. if n \<le> i \<and> i < n + (?m - n) then Raw else gA i)"
    define st1 where "st1 = st\<lparr>heap := (heap st)(a \<mapsto> map g1 [0..<c])\<rparr>"
    have s1: "DestroyN (Some a, n) (?m - n) st = (Inr (), st1)"
      unfolding st1_def g1_def
      by (rule DestroyN_block [OF ha']) (use n le in \<open>auto simp: gA_def\<close>)
    have fin: "map g1 [0..<c] = filled (take n xs) c"
      by (rule map_as_filled) (use n le in \<open>auto simp: g1_def gA_def min_def\<close>)
    define st2 where "st2 = st\<lparr>heap := (heap st)(a \<mapsto> filled (take n xs) c),
        objs := (objs st)[this := (objs st ! this)\<lparr>m_size := n\<rparr>]\<rparr>"
    have "Resize tr this n st = (Inr (), st2)"
      using this_obj_holds [OF h] s1 n lt ob Some fin
      by (simp add: Resize_def run_defs set_size_run st1_def st2_def)
    moreover have "holds st2 this b c (take n xs)"
      unfolding holds_def using Some abrk lt ob n le by (simp add: st2_def min_def)
    ultimately show ?thesis by (auto simp: st2_def)
  qed
qed

lemma Resize_grow:
  assumes h: "holds st this b c xs" and q: "fuse st = None" and n: "length xs < n"
    and al: "allocatable tr n" and sm: "length xs < 2 ^ 31"
  shows "\<exists>st' b'. Resize tr this n st = (Inr (), st') \<and>
           holds st' this b' (max c n) (xs @ replicate (n - length xs) (default_initialized tr)) \<and>
           fuse st' = None"
proof -
  let ?m = "length xs"
  let ?ys = "xs @ replicate (n - ?m) (default_initialized tr)"
  from Reserve_holds [OF h q al sm] obtain st1 b1
    where r: "Reserve tr this n st = (Inr (), st1)"
      and h1: "holds st1 this b1 (max c n) xs" and q1: "fuse st1 = None"
    by blast
  have pre: "(if n > RawMemory_Capacity \<lparr>m_buffer = b, m_capacity = c\<rparr> then Reserve tr this n else ret ()) st
      = (Inr (), st1)"
    using r Reserve_enough [OF h, of n tr] by (auto simp: RawMemory_Capacity_def)
  let ?c1 = "max c n"
  from h1 have lt1: "this < length (objs st1)"
    and ob1: "objs st1 ! this = \<lparr>m_data = \<lparr>m_buffer = b1, m_capacity = ?c1\<rparr>, m_size = ?m\<rparr>"
    by (simp_all add: holds_def)
  from n have "0 < ?c1" by simp
  with h1 obtain a where b1: "b1 = Some a" and abrk: "a < brk st1"
    and ha: "heap st1 a = Some (filled xs ?c1)"
    by (elim holds_Some_cases)
  from h1 have le1: "?m \<le> ?c1" by (simp add: holds_def)
  define gA where "gA = (\<lambda>i. if i < ?m then Live (xs ! i) else Raw)"
  have ha': "heap st1 a = Some (map gA [0..<?c1])"
    using ha le1 by (simp add: filled_as_map gA_def)
  define g2 where "g2 = (\<lambda>i. if ?m \<le> i \<and> i < ?m + (n - ?m) then Live (default_initialized tr) else gA i)"
  define st2 where "st2 = st1\<lparr>heap := (heap st1)(a \<mapsto> map g2 [0..<?c1])\<rparr>"
  have s2: "uninitialized_default_construct_n tr (Some a, ?m) (n - ?m) st1 = (Inr (), st2)"
    unfolding st2_def g2_def uninitialized_default_construct_n_def default_construct_def
    by (rule uninit_construct_block [OF ha' q1]) (use n in \<open>auto simp: gA_def\<close>)
  have fin: "map g2 [0..<?c1] = filled ?ys ?c1"
    by (rule map_as_filled) (use n in \<open>auto simp: g2_def gA_def nth_append\<close>)
  define st3 where "st3 = st1\<lparr>heap := (heap st1)(a \<mapsto> filled ?ys ?c1),
      objs := (objs st1)[this := (objs st1 ! this)\<lparr>m_size := n\<rparr>]\<rparr>"
  have "Resize tr this n st = (Inr (), st3)"
    using this_obj_holds [OF h] this_obj_holds [OF h1] pre s2 n lt1 le1 b1 fin
    by (simp add: Resize_def run_defs set_size_run st2_def st3_def)
  moreover have "holds st3 this b1 ?c1 ?ys"
    unfolding holds_def using b1 abrk lt1 ob1 n by (simp add: st3_def)
  ultimately show ?thesis using q1 by (auto simp: st3_def)
qed

section \<open>Constructors and Swap when nothing throws\<close>

lemma std_swap_self:
  assumes "\<And>v. put (get v) v = v"
  shows "std_swap get put a a os = os"
  using assms by (simp add: std_swap_def Let_def)

lemma holds_append_obj:
  "holds st i b c xs \<Longrightarrow> holds (st\<lparr>objs := objs st @ [v]\<rparr>) i b c xs"
  by (cases b) (auto simp: holds_def nth_append)

lemma Vector_sized_ctor_holds:
  assumes q: "fuse st = None" and al: "allocatable tr n"
  shows "\<exists>st' b'. Vector_sized_ctor tr n st = (Inr (length (objs st)), st') \<and>
           holds st' (length (objs st)) b' n (replicate n (value_initialized tr)) \<and>
           fuse st' = None"
proof (cases "n = 0")
  case True
  have "Vector_sized_ctor tr n st =
      (Inr (length (objs st)), st\<lparr>objs := objs st @ [\<lparr>m_data = \<lparr>m_buffer = None, m_capacity = 0\<rparr>, m_size = 0\<rparr>]\<rparr>)"
    using True
    by (simp add: Vector_sized_ctor_def run_defs RawMemory_ctor_def Allocate_def
        uninitialized_value_construct_n_def new_obj_def)
  moreover have "holds (st\<lparr>objs := objs st @ [\<lparr>m_data = \<lparr>m_buffer = None, m_capacity = 0\<rparr>, m_size = 0\<rparr>]\<rparr>)
      (length (objs st)) None n (replicate n (value_initialized tr))"
    using True by (simp add: holds_def)
  ultimately show ?thesis using q by auto
next
  case False
  let ?b' = "brk st"
  define st1 where "st1 = st\<lparr>heap := (heap st)(?b' \<mapsto> map (\<lambda>_. Raw) [0..<n]), brk := Suc ?b'\<rparr>"
  have s1: "RawMemory_ctor tr n st = (Inr \<lparr>m_buffer = Some ?b', m_capacity = n\<rparr>, st1)"
    using RawMemory_ctor_quiet [OF False q al] by (simp add: st1_def)
  define g2 where "g2 = (\<lambda>i. if 0 \<le> i \<and> i < 0 + n then Live (value_initialized tr) else Raw)"
  define st2 where "st2 = st1\<lparr>heap := (heap st1)(?b' \<mapsto> map g2 [0..<n])\<rparr>"
  have s2: "uninitialized_value_construct_n tr (Some ?b', 0) n st1 = (Inr (), st2)"
    unfolding st2_def g2_def uninitialized_value_construct_n_def value_construct_def
    by (rule uninit_construct_block) (use q in \<open>simp_all add: st1_def\<close>)
  have fin: "map g2 [0..<n] = filled (replicate n (value_initialized tr)) n"
    by (rule map_as_filled) (auto simp: g2_def)
  define st3 where "st3 = st\<lparr>heap := (heap st)(?b' \<mapsto> filled (replicate n (value_initialized tr)) n),
      brk := Suc ?b',
      objs := objs st @ [\<lparr>m_data = \<lparr>m_buffer = Some ?b', m_capacity = n\<rparr>, m_size = n\<rparr>]\<rparr>"
  have "Vector_sized_ctor tr n st = (Inr (length (objs st)), st3)"
    using s1 s2 fin
    by (simp add: Vector_sized_ctor_def run_defs new_obj_def st2_def st1_def st3_def)
  moreover have "holds st3 (length (objs st)) (Some ?b') n (replicate n (value_initialized tr))"
    by (simp add: holds_def st3_def)
  ultimately show ?thesis using q by (auto simp: st3_def)
qed

lemma Vector_copy_ctor_holds:
  assumes h: "holds st other bo co ys" and q: "fuse st = None"
    and al: "allocatable tr (length ys)"
  shows "\<exists>st' b'. Vector_copy_ctor tr other st = (Inr (length (objs st)), st') \<and>
           holds st' (length (objs st)) b' (length ys) ys \<and> holds st' other bo co ys \<and>
           (b' = None \<or> b' = Some (brk st)) \<and> brk st \<le> brk st' \<and>
           objs st' = objs st @ [\<lparr>m_data = \<lparr>m_buffer = b', m_capacity = length ys\<rparr>, m_size = length ys\<rparr>] \<and>
           (\<forall>a. a < brk st \<longrightarrow> heap st' a = heap st a) \<and>
           fuse st' = None"
proof (cases "ys = []")
  case True
  define st3 where "st3 = st\<lparr>objs := objs st @ [\<lparr>m_data = \<lparr>m_buffer = None, m_capacity = 0\<rparr>, m_size = 0\<rparr>]\<rparr>"
  have "Vector_copy_ctor tr other st = (Inr (length (objs st)), st3)"
    using this_obj_holds [OF h] True
    by (simp add: Vector_copy_ctor_def run_defs RawMemory_ctor_def Allocate_def
        uninitialized_copy_n_def new_obj_def st3_def)
  moreover have "holds st3 (length (objs st)) None (length ys) ys"
    using True by (simp add: holds_def st3_def)
  moreover have "holds st3 other bo co ys"
    unfolding st3_def by (rule holds_append_obj [OF h])
  ultimately show ?thesis using q True by (auto simp: st3_def)
next
  case False
  let ?b' = "brk st"
  let ?n = "length ys"
  have npos: "?n \<noteq> 0" using False by simp
  from h have le: "?n \<le> co" by (simp add: holds_def)
  with False have "0 < co" by (cases ys) auto
  with h obtain a where bo: "bo = Some a" and abrk: "a < brk st"
    and ha: "heap st a = Some (filled ys co)"
    by (elim holds_Some_cases)
  have ab: "a \<noteq> ?b'" using abrk by simp
  define gA where "gA = (\<lambda>i. if i < ?n then Live (ys ! i) else Raw)"
  have ha': "heap st a = Some (map gA [0..<co])"
    using ha le by (simp add: filled_as_map gA_def)
  define st1 where "st1 = st\<lparr>heap := (heap st)(?b' \<mapsto> map (\<lambda>_. Raw) [0..<?n]), brk := Suc ?b'\<rparr>"
  have s1: "RawMemory_ctor tr ?n st = (Inr \<lparr>m_buffer = Some ?b', m_capacity = ?n\<rparr>, st1)"
    using RawMemory_ctor_quiet [OF npos q al] by (simp add: st1_def)
  define g2 where "g2 = (\<lambda>i. if 0 \<le> i \<and> i < 0 + ?n then gA (0 + (i - 0)) else Raw)"
  define st2 where "st2 = st1\<lparr>heap := (heap st1)(?b' \<mapsto> map g2 [0..<?n])\<rparr>"
  have s2: "uninitialized_copy_n (Some a, 0) ?n (Some ?b', 0) st1 = (Inr (), st2)"
    unfolding st2_def g2_def
    by (rule uninitialized_copy_n_blocks)
      (use ha' ab q le in \<open>auto simp: st1_def gA_def\<close>)
  have fin: "map g2 [0..<?n] = filled ys ?n"
    by (rule map_as_filled) (auto simp: g2_def gA_def)
  define st3 where "st3 = st\<lparr>heap := (heap st)(?b' \<mapsto> filled ys ?n),
      brk := Suc ?b',
      objs := objs st @ [\<lparr>m_data = \<lparr>m_buffer = Some ?b', m_capacity = ?n\<rparr>, m_size = ?n\<rparr>]\<rparr>"
  have "Vector_copy_ctor tr other st = (Inr (length (objs st)), st3)"
    using this_obj_holds [OF h] s1 s2 fin bo
    by (simp add: Vector_copy_ctor_def run_defs new_obj_def st2_def st1_def st3_def)
  moreover have "holds st3 (length (objs st)) (Some ?b') ?n ys"
    by (simp add: holds_def st3_def)
  moreover have "holds st3 other bo co ys"
    using h bo ab by (auto simp: holds_def st3_def nth_append)
  ultimately show ?thesis using q by (auto simp: st3_def)
qed

lemma Vector_move_ctor_holds:
  assumes h: "holds st other bo co ys"
  shows "\<exists>st'. Vector_move_ctor other st = (Inr (length (objs st)), st') \<and>
           holds st' (length (objs st)) bo co ys \<and> holds st' other None 0 [] \<and>
           fuse st' = fuse st"
proof -
  from h have lt: "other < length (objs st)"
    and ob: "objs st ! other = \<lparr>m_data = \<lparr>m_buffer = bo, m_capacity = co\<rparr>, m_size = length ys\<rparr>"
    by (simp_all add: holds_def)
  define st3 where "st3 = st\<lparr>objs := (objs st)[other := \<lparr>m_data = \<lparr>m_buffer = None, m_capacity = 0\<rparr>, m_size = 0\<rparr>]
      @ [\<lparr>m_data = \<lparr>m_buffer = bo, m_capacity = co\<rparr>, m_size = length ys\<rparr>]\<rparr>"
  have "Vector_move_ctor other st = (Inr (length (objs st)), st3)"
    using this_obj_holds [OF h] lt ob
    by (simp add: Vector_move_ctor_def run_defs RawMemory_move_ctor_def set_data_run set_size_run
        new_obj_def st3_def)
  moreover have "holds st3 (length (objs st)) bo co ys"
    using h by (cases bo) (auto simp: holds_def st3_def nth_append)
  moreover have "holds st3 other None 0 []"
    using lt by (simp add: holds_def st3_def nth_append)
  ultimately show ?thesis by (auto simp: st3_def)
qed

lemma Vector_Swap_holds:
  assumes h: "holds st this b c xs" and ho: "holds st other bo co ys"
  shows "\<exists>st'. Vector_Swap this other st = (Inr (), st') \<and>
           holds st' this bo co ys \<and> holds st' other b c xs \<and> fuse st' = fuse st \<and>
           heap st' = heap st \<and> brk st' = brk st \<and> length (objs st') = length (objs st) \<and>
           (\<forall>i. i \<noteq> this \<longrightarrow> i \<noteq> other \<longrightarrow> objs st' ! i = objs st ! i)"
proof -
  from h have lt: "this < length (objs st)"
    and ob: "objs st ! this = \<lparr>m_data = \<lparr>m_buffer = b, m_capacity = c\<rparr>, m_size = length xs\<rparr>"
    by (simp_all add: holds_def)
  from ho have lto: "other < length (objs st)"
    and obo: "objs st ! other = \<lparr>m_data = \<lparr>m_buffer = bo, m_capacity = co\<rparr>, m_size = length ys\<rparr>"
    by (simp_all add: holds_def)
  show ?thesis
  proof (cases "this = other")
    case True
    then have "Vector_Swap this other st = (Inr (), st)"
      using lt by (simp add: Vector_Swap_def std_swap_self)
    moreover from True h ho have "holds st this bo co ys" "holds st other b c xs" by simp_all
    ultimately show ?thesis by auto
  next
    case False
    define os where "os = (objs st)[this := \<lparr>m_data = \<lparr>m_buffer = bo, m_capacity = co\<rparr>, m_size = length ys\<rparr>,
        other := \<lparr>m_data = \<lparr>m_buffer = b, m_capacity = c\<rparr>, m_size = length xs\<rparr>]"
    have "Vector_Swap this other st = (Inr (), st\<lparr>objs := os\<rparr>)"
      using False lt lto ob obo
      by (simp add: Vector_Swap_def std_swap_def Let_def os_def list_update_swap [of other this])
    moreover have "holds (st\<lparr>objs := os\<rparr>) this bo co ys"
      using ho False lt lto by (cases bo) (auto simp: holds_def os_def)
    moreover have "holds (st\<lparr>objs := os\<rparr>) other b c xs"
      using h False lt lto by (cases b) (auto simp: holds_def os_def)
    ultimately show ?thesis by (auto simp: os_def)
  qed
qed

section \<open>Copy assignment when nothing throws\<close>

lemma Vector_copy_ctor_nonempty:
  assumes h: "holds st other bo co ys" and q: "fuse st = None" and ne: "ys \<noteq> []"
    and al: "allocatable tr (length ys)"
  shows "Vector_copy_ctor tr other st =
    (Inr (length (objs st)),
     st\<lparr>heap := (heap st)(brk st \<mapsto> filled ys (length ys)), brk := Suc (brk st),
        objs := objs st @ [\<lparr>m_data = \<lparr>m_buffer = Some (brk st), m_capacity = length ys\<rparr>,
                  m_size = length ys\<rparr>]\<rparr>)"
proof -
  show ?thesis
  proof -
    let ?b' = "brk st"
    let ?n = "length ys"
    have npos: "?n \<noteq> 0" using ne by simp
    from h have le: "?n \<le> co" by (simp add: holds_def)
    with ne have "0 < co" by (cases ys) auto
    with h obtain a where bo: "bo = Some a" and abrk: "a < brk st"
      and ha: "heap st a = Some (filled ys co)"
      by (elim holds_Some_cases)
    have ab: "a \<noteq> ?b'" using abrk by simp
    define gA where "gA = (\<lambda>i. if i < ?n then Live (ys ! i) else Raw)"
    have ha': "heap st a = Some (map gA [0..<co])"
      using ha le by (simp add: filled_as_map gA_def)
    define st1 where "st1 = st\<lparr>heap := (heap st)(?b' \<mapsto> map (\<lambda>_. Raw) [0..<?n]), brk := Suc ?b'\<rparr>"
    have s1: "RawMemory_ctor tr ?n st = (Inr \<lparr>m_buffer = Some ?b', m_capacity = ?n\<rparr>, st1)"
      using RawMemory_ctor_quiet [OF npos q al] by (simp add: st1_def)
    define g2 where "g2 = (\<lambda>i. if 0 \<le> i \<and> i < 0 + ?n then gA (0 + (i - 0)) else Raw)"
    define st2 where "st2 = st1\<lparr>heap := (heap st1)(?b' \<mapsto> map g2 [0..<?n])\<rparr>"
    have s2: "uninitialized_copy_n (Some a, 0) ?n (Some ?b', 0) st1 = (Inr (), st2)"
      unfolding st2_def g2_def
      by (rule uninitialized_copy_n_blocks)
        (use ha' ab q le in \<open>auto simp: st1_def gA_def\<close>)
    have fin: "map g2 [0..<?n] = filled ys ?n"
      by (rule map_as_filled) (auto simp: g2_def gA_def)
    show ?thesis
      using this_obj_holds [OF h] s1 s2 fin bo
      by (simp add: Vector_copy_ctor_def run_defs new_obj_def st2_def st1_def)
  qed
qed

lemma Vector_dtor_holds:
  assumes h: "holds st t b c xs"
  shows "Vector_dtor t st = (Inr (), st\<lparr>heap := released b (heap st)\<rparr>)"
proof (cases b)
  case None
  with h have "xs = []" by (auto simp: holds_def)
  with None show ?thesis
    using this_obj_holds [OF h]
    by (simp add: Vector_dtor_def run_defs Deallocate_def)
next
  case (Some a)
  let ?m = "length xs"
  from h Some have ha: "heap st a = Some (filled xs c)" and le: "?m \<le> c"
    by (simp_all add: holds_def)
  define gA where "gA = (\<lambda>i. if i < ?m then Live (xs ! i) else Raw)"
  have ha': "heap st a = Some (map gA [0..<c])"
    using ha le by (simp add: filled_as_map gA_def)
  define g1 where "g1 = (\<lambda>i. if 0 \<le> i \<and> i < 0 + ?m then Raw else gA i)"
  have s1: "DestroyN (Some a, 0) ?m st = (Inr (), st\<lparr>heap := (heap st)(a \<mapsto> map g1 [0..<c])\<rparr>)"
    unfolding g1_def by (rule DestroyN_block [OF ha']) (use le in \<open>auto simp: gA_def\<close>)
  have lv: "live_values (map g1 [0..<c]) = []"
    by (rule live_values_all_raw) (simp add: g1_def gA_def)
  show ?thesis
    using this_obj_holds [OF h] s1 Some lv
    by (simp add: Vector_dtor_def run_defs Deallocate_def)
qed


lemma copy_n_zero [simp]: "copy_n p 0 p' st = (Inr (), st)"
  by (simp add: copy_n_def)

lemma uninitialized_copy_n_zero [simp]: "uninitialized_copy_n p 0 p' st = (Inr (), st)"
  by (simp add: uninitialized_copy_n_def)

lemma Vector_copy_assign_reuse:
  assumes h: "holds st this b c xs" and ho: "holds st other bo co ys" and q: "fuse st = None"
    and ne: "this \<noteq> other" and sep: "\<And>a. b = Some a \<Longrightarrow> bo \<noteq> Some a"
    and fits: "length ys \<le> c"
  shows "\<exists>st'. Vector_copy_assign tr this other st = (Inr (), st') \<and>
           holds st' this b c ys \<and> holds st' other bo co ys \<and> fuse st' = None"
proof -
  let ?n = "length xs" and ?p = "length ys"
  from h have lt: "this < length (objs st)" and le: "?n \<le> c"
    and ob: "objs st ! this = \<lparr>m_data = \<lparr>m_buffer = b, m_capacity = c\<rparr>, m_size = ?n\<rparr>"
    by (simp_all add: holds_def)
  from ho have lto: "other < length (objs st)" and leo: "?p \<le> co"
    and obo: "objs st ! other = \<lparr>m_data = \<lparr>m_buffer = bo, m_capacity = co\<rparr>, m_size = ?p\<rparr>"
    by (simp_all add: holds_def)
  have tv: "this_obj this st = (Inr \<lparr>m_data = \<lparr>m_buffer = b, m_capacity = c\<rparr>, m_size = ?n\<rparr>, st)"
    by (rule this_obj_holds [OF h])
  have tov: "this_obj other s = (Inr \<lparr>m_data = \<lparr>m_buffer = bo, m_capacity = co\<rparr>, m_size = ?p\<rparr>, s)"
    if "objs s ! other = objs st ! other" "length (objs s) = length (objs st)" for s
    using that lto obo by (simp add: this_obj_def)
  have final: "\<exists>st'. Vector_copy_assign tr this other st = (Inr (), st') \<and>
           holds st' this b c ys \<and> holds st' other bo co ys \<and> fuse st' = None"
    if body: "seqn (copy_n (bo, 0) (min ?p ?n) (b, 0))
          (if ?p < ?n then DestroyN (b, min ?p ?n) (?n - min ?p ?n)
           else uninitialized_copy_n (bo, min ?p ?n) (?p - ?n) (b, min ?p ?n)) st = (Inr (), s1)"
      and heap1: "\<And>a. heap s1 a = (if b = Some a \<and> (xs \<noteq> [] \<or> ys \<noteq> []) then Some (filled ys c) else heap st a)"
      and rest1: "objs s1 = objs st" "brk s1 = brk st" "fuse s1 = None"
    for s1
  proof -
    define s2 where "s2 = s1\<lparr>objs := (objs s1)[this := (objs s1 ! this)\<lparr>m_size := ?p\<rparr>]\<rparr>"
    have unf: "Vector_copy_assign tr this other st =
        bnd (seqn (copy_n (bo, 0) (min ?p ?n) (b, 0))
          (if ?p < ?n then DestroyN (b, min ?p ?n) (?n - min ?p ?n)
           else uninitialized_copy_n (bo, min ?p ?n) (?p - ?n) (b, min ?p ?n)))
          (\<lambda>_. bnd (this_obj other) (\<lambda>ov. set_size this (m_size ov))) st"
      using tv tov [of st] ne fits
      by (simp add: Vector_copy_assign_def run_defs Let_def split: prod.splits sum.splits)
    have run: "Vector_copy_assign tr this other st = (Inr (), s2)"
      unfolding unf using body tov [of s1] lt rest1
      by (simp add: bnd_def set_size_run s2_def)
    have h2: "holds s2 this b c ys"
    proof (cases b)
      case None
      with h fits show ?thesis
        using lt ob rest1 by (auto simp: holds_def s2_def)
    next
      case (Some a)
      show ?thesis
      proof (cases "xs \<noteq> [] \<or> ys \<noteq> []")
        case True
        with Some h fits lt ob rest1 heap1 [of a] show ?thesis
          by (auto simp: holds_def s2_def)
      next
        case False
        with Some h fits lt ob rest1 heap1 [of a] show ?thesis
          by (auto simp: holds_def s2_def)
      qed
    qed
    have ho2: "holds s2 other bo co ys"
    proof (cases bo)
      case None
      with ho ne lto obo rest1 show ?thesis by (auto simp: holds_def s2_def)
    next
      case (Some ao)
      with sep have "b \<noteq> Some ao" by auto
      with Some ho ne lto obo rest1 heap1 [of ao] show ?thesis
        by (auto simp: holds_def s2_def)
    qed
    from run h2 ho2 rest1 show ?thesis by (auto simp: s2_def)
  qed
  show ?thesis
  proof (cases "ys = []")
    case True
    show ?thesis
    proof (cases "xs = []")
      case xs: True
      show ?thesis
        by (rule final [of st]) (use True xs q in \<open>simp_all add: seqn_def bnd_def\<close>)
    next
      case xs: False
      then have "0 < c" using le by (cases xs) auto
      with h obtain a where b: "b = Some a" and ha: "heap st a = Some (filled xs c)"
        by (elim holds_Some_cases)
      define gA where "gA = (\<lambda>i. if i < ?n then Live (xs ! i) else Raw)"
      have ha': "heap st a = Some (map gA [0..<c])"
        using ha le by (simp add: filled_as_map gA_def)
      define g1 where "g1 = (\<lambda>i. if 0 \<le> i \<and> i < 0 + ?n then Raw else gA i)"
      define s1 where "s1 = st\<lparr>heap := (heap st)(a \<mapsto> map g1 [0..<c])\<rparr>"
      have d: "DestroyN (Some a, 0) ?n st = (Inr (), s1)"
        unfolding s1_def g1_def by (rule DestroyN_block [OF ha']) (use le in \<open>auto simp: gA_def\<close>)
      have fin: "map g1 [0..<c] = filled ys c"
        by (rule map_as_filled) (use True in \<open>auto simp: g1_def gA_def\<close>)
      show ?thesis
        by (rule final [of s1])
          (use True xs q d b fin in \<open>auto simp: seqn_def bnd_def s1_def\<close>)
    qed
  next
    case False
    then have "0 < co" "0 < c" using leo fits by (cases ys; auto)+
    with h ho obtain a ao where b: "b = Some a" and ha: "heap st a = Some (filled xs c)"
      and bo: "bo = Some ao" and hao: "heap st ao = Some (filled ys co)"
      by (elim holds_Some_cases) auto
    have aao: "ao \<noteq> a" using sep [OF b] bo by auto
    define gA where "gA = (\<lambda>i. if i < ?n then Live (xs ! i) else Raw)"
    define gO where "gO = (\<lambda>i. if i < ?p then Live (ys ! i) else Raw)"
    have ha': "heap st a = Some (map gA [0..<c])"
      using ha le by (simp add: filled_as_map gA_def)
    have hao': "heap st ao = Some (map gO [0..<co])"
      using hao leo by (simp add: filled_as_map gO_def)
    let ?m = "min ?p ?n"
    define g1 where "g1 = (\<lambda>i. if i < ?m then gO i else gA i)"
    define s1 where "s1 = st\<lparr>heap := (heap st)(a \<mapsto> map g1 [0..<c])\<rparr>"
    have c1: "copy_n (Some ao, 0) ?m (Some a, 0) st = (Inr (), s1)"
      unfolding s1_def g1_def
      by (rule copy_n_blocks [OF hao' ha' aao q]) (use le leo in \<open>auto simp: gA_def gO_def\<close>)
    show ?thesis
    proof (cases "?p < ?n")
      case True
      define g2 where "g2 = (\<lambda>i. if ?p \<le> i \<and> i < ?p + (?n - ?p) then Raw else g1 i)"
      define s2 where "s2 = s1\<lparr>heap := (heap s1)(a \<mapsto> map g2 [0..<c])\<rparr>"
      have d: "DestroyN (Some a, ?p) (?n - ?p) s1 = (Inr (), s2)"
        unfolding s2_def g2_def
        by (rule DestroyN_block) (use True le in \<open>auto simp: s1_def g1_def gA_def\<close>)
      have fin: "map g2 [0..<c] = filled ys c"
        by (rule map_as_filled) (use True fits in \<open>auto simp: g2_def g1_def gA_def gO_def\<close>)
      have m: "?m = ?p" using True by simp
      show ?thesis
        by (rule final [of s2])
          (use True False q c1 d b bo fin m in \<open>auto simp: seqn_def bnd_def s2_def s1_def\<close>)
    next
      case nl: False
      define g2 where "g2 = (\<lambda>i. if ?n \<le> i \<and> i < ?n + (?p - ?n) then gO (?n + (i - ?n)) else g1 i)"
      define s2 where "s2 = s1\<lparr>heap := (heap s1)(a \<mapsto> map g2 [0..<c])\<rparr>"
      have u: "uninitialized_copy_n (Some ao, ?n) (?p - ?n) (Some a, ?n) s1 = (Inr (), s2)"
        unfolding s2_def g2_def
        by (rule uninitialized_copy_n_blocks [where ga = gO and ca = co])
          (use nl aao q leo fits hao' in \<open>auto simp: s1_def g1_def gA_def gO_def\<close>)
      have fin: "map g2 [0..<c] = filled ys c"
        by (rule map_as_filled) (use nl fits in \<open>auto simp: g2_def g1_def gA_def gO_def\<close>)
      have m: "?m = ?n" using nl by simp
      show ?thesis
        by (rule final [of s2])
          (use nl False q c1 u b bo fin m in \<open>auto simp: seqn_def bnd_def s2_def s1_def\<close>)
    qed
  qed
qed


lemma Vector_copy_assign_replace:
  assumes h: "holds st this b c xs" and ho: "holds st other bo co ys" and q: "fuse st = None"
    and ne: "this \<noteq> other" and sep: "\<And>a. b = Some a \<Longrightarrow> bo \<noteq> Some a"
    and big: "c < length ys" and al: "allocatable tr (length ys)"
  shows "\<exists>st'. Vector_copy_assign tr this other st = (Inr (), st') \<and>
           holds st' this (Some (brk st)) (length ys) ys \<and> holds st' other bo co ys \<and>
           fuse st' = None"
proof -
  let ?n = "length xs" and ?p = "length ys" and ?t = "length (objs st)" and ?b' = "brk st"
  from h have lt: "this < ?t" and le: "?n \<le> c"
    and ob: "objs st ! this = \<lparr>m_data = \<lparr>m_buffer = b, m_capacity = c\<rparr>, m_size = ?n\<rparr>"
    by (simp_all add: holds_def)
  from ho have lto: "other < ?t" and leo: "?p \<le> co"
    and obo: "objs st ! other = \<lparr>m_data = \<lparr>m_buffer = bo, m_capacity = co\<rparr>, m_size = ?p\<rparr>"
    by (simp_all add: holds_def)
  from big have yne: "ys \<noteq> []" by auto
  have nb: "b \<noteq> Some ?b'" using h by (auto simp: holds_def)
  have nbo: "bo \<noteq> Some ?b'" using ho by (auto simp: holds_def)
  define T where "T = \<lparr>m_data = \<lparr>m_buffer = Some ?b', m_capacity = ?p\<rparr>, m_size = ?p\<rparr>"
  define s1 where "s1 = st\<lparr>heap := (heap st)(?b' \<mapsto> filled ys ?p), brk := Suc ?b',
        objs := objs st @ [T]\<rparr>"
  have c1: "Vector_copy_ctor tr other st = (Inr ?t, s1)"
    unfolding s1_def T_def by (rule Vector_copy_ctor_nonempty [OF ho q yne al])
  have h1: "holds s1 this b c xs"
    using h nb by (cases b) (auto simp: holds_def s1_def nth_append)
  have t1: "holds s1 ?t (Some ?b') ?p ys"
    by (simp add: holds_def s1_def T_def)
  from Vector_Swap_holds [OF h1 t1] obtain s2
    where sw: "Vector_Swap this ?t s1 = (Inr (), s2)"
      and h2: "holds s2 this (Some ?b') ?p ys" and t2: "holds s2 ?t b c xs"
      and f2: "fuse s2 = fuse s1" "heap s2 = heap s1" "brk s2 = brk s1"
        "length (objs s2) = length (objs s1)"
      and o2: "\<forall>i. i \<noteq> this \<longrightarrow> i \<noteq> ?t \<longrightarrow> objs s2 ! i = objs s1 ! i"
    by blast
  define s3 where "s3 = s2\<lparr>heap := released b (heap s2)\<rparr>"
  have d3: "Vector_dtor ?t s2 = (Inr (), s3)"
    unfolding s3_def by (rule Vector_dtor_holds [OF t2])
  define s4 where "s4 = s3\<lparr>objs := butlast (objs s3)\<rparr>"
  have p4: "pop_obj s3 = (Inr (), s4)" by (simp add: pop_obj_def s4_def)
  have len4: "length (objs s4) = ?t"
    using f2 by (simp add: s4_def s3_def s1_def)
  have nth4: "objs s4 ! i = objs s2 ! i" if "i < ?t" for i
    using that f2 by (simp add: s4_def s3_def s1_def nth_butlast)
  have oo: "objs s4 ! other = \<lparr>m_data = \<lparr>m_buffer = bo, m_capacity = co\<rparr>, m_size = ?p\<rparr>"
    using nth4 [OF lto] o2 ne lto obo by (simp add: s1_def nth_append)
  have ot: "objs s4 ! this = \<lparr>m_data = \<lparr>m_buffer = Some ?b', m_capacity = ?p\<rparr>, m_size = ?p\<rparr>"
    using nth4 [OF lt] h2 by (simp add: holds_def)
  have to4: "this_obj other s4 = (Inr \<lparr>m_data = \<lparr>m_buffer = bo, m_capacity = co\<rparr>, m_size = ?p\<rparr>, s4)"
    using oo lto len4 by (simp add: this_obj_def)
  define s5 where "s5 = s4\<lparr>objs := (objs s4)[this := (objs s4 ! this)\<lparr>m_size := ?p\<rparr>]\<rparr>"
  have ss: "set_size this ?p s4 = (Inr (), s5)"
    unfolding s5_def by (rule set_size_run) (use lt len4 in simp)
  have unf: "Vector_copy_assign tr this other st =
      bnd (bnd (Vector_copy_ctor tr other) (\<lambda>other_copy.
             seqn (Vector_Swap this other_copy) (seqn (Vector_dtor other_copy) pop_obj)))
        (\<lambda>_. bnd (this_obj other) (\<lambda>ov. set_size this (m_size ov))) st"
    using this_obj_holds [OF h] this_obj_holds [OF ho] ne big
    by (simp add: Vector_copy_assign_def run_defs split: prod.splits sum.splits)
  have run: "Vector_copy_assign tr this other st = (Inr (), s5)"
    unfolding unf using c1 sw d3 p4 to4 ss by (simp add: bnd_def seqn_def)
  have heap5: "heap s5 = released b ((heap st)(?b' \<mapsto> filled ys ?p))"
    using f2 by (simp add: s5_def s4_def s3_def s1_def)
  have brk5: "brk s5 = Suc ?b'" using f2 by (simp add: s5_def s4_def s3_def s1_def)
  have h5: "holds s5 this (Some ?b') ?p ys"
    unfolding holds_def using lt len4 ot nb heap5 brk5
    by (cases b) (auto simp: s5_def)
  have ho5: "holds s5 other bo co ys"
  proof (cases bo)
    case None
    with ho lto len4 oo ne show ?thesis by (auto simp: holds_def s5_def)
  next
    case (Some ao)
    with ho have "ao < ?b'" "heap st ao = Some (filled ys co)" by (simp_all add: holds_def)
    moreover have "b \<noteq> Some ao" using sep Some by auto
    ultimately have "heap s5 ao = Some (filled ys co)"
      unfolding heap5 by (cases b) auto
    with Some \<open>ao < ?b'\<close> lto len4 oo ne leo brk5 show ?thesis
      by (auto simp: holds_def s5_def)
  qed
  have "fuse s5 = None" using f2 q by (simp add: s5_def s4_def s3_def s1_def)
  with run h5 ho5 show ?thesis by blast
qed

lemma Vector_copy_assign_holds:
  assumes h: "holds st this b c xs" and ho: "holds st other bo co ys" and q: "fuse st = None"
    and ne: "this \<noteq> other" and sep: "\<And>a. b = Some a \<Longrightarrow> bo \<noteq> Some a"
    and al: "allocatable tr (length ys)"
  shows "\<exists>st' b'. Vector_copy_assign tr this other st = (Inr (), st') \<and>
           holds st' this b' (max c (length ys)) ys \<and> holds st' other bo co ys \<and>
           fuse st' = None"
proof (cases "length ys \<le> c")
  case True
  from Vector_copy_assign_reuse [OF h ho q ne sep True, of tr] True show ?thesis
    by (auto simp: max_def)
next
  case False
  then have big: "c < length ys" by simp
  from Vector_copy_assign_replace [OF h ho q ne sep big al] big show ?thesis
    by (auto simp: max_def)
qed

section \<open>Operations that leave the storage alone\<close>

named_theorems keeps_intros

lemma storage_kept_refl: "storage_kept st st"
  by (simp add: storage_kept_def)

lemma storage_kept_trans: "storage_kept s1 s2 \<Longrightarrow> storage_kept s2 s3 \<Longrightarrow> storage_kept s1 s3"
  by (simp add: storage_kept_def)

lemma keeps_storage_ret [keeps_intros]: "keeps_storage (ret x)"
  by (simp add: keeps_storage_def storage_kept_refl)

lemma keeps_storage_raise [keeps_intros]: "keeps_storage (raise e)"
  by (simp add: keeps_storage_def storage_kept_refl)

lemma keeps_storage_tick [keeps_intros]: "keeps_storage tick"
  by (auto simp: keeps_storage_def storage_kept_def tick_def split: option.splits nat.splits)

lemma keeps_storage_bnd [keeps_intros]:
  assumes "keeps_storage m" and "\<And>x. keeps_storage (f x)"
  shows "keeps_storage (bnd m f)"
  unfolding keeps_storage_def
proof
  fix st
  have 1: "storage_kept st (snd (m st))" using assms(1) by (simp add: keeps_storage_def)
  show "storage_kept st (snd (bnd m f st))"
  proof (cases "m st")
    case (Pair r s1)
    show ?thesis
    proof (cases r)
      case (Inl e)
      with Pair 1 show ?thesis by (simp add: bnd_def)
    next
      case (Inr x)
      from assms(2) [of x] have "storage_kept s1 (snd (f x s1))" by (simp add: keeps_storage_def)
      with 1 Pair have "storage_kept st (snd (f x s1))" by (auto intro: storage_kept_trans)
      with Pair Inr show ?thesis by (simp add: bnd_def)
    qed
  qed
qed

lemma keeps_storage_seqn [keeps_intros]:
  "keeps_storage m \<Longrightarrow> keeps_storage n \<Longrightarrow> keeps_storage (seqn m n)"
  by (simp add: seqn_def keeps_storage_bnd)

lemma keeps_storage_if [keeps_intros]:
  "keeps_storage m \<Longrightarrow> keeps_storage n \<Longrightarrow> keeps_storage (if c then m else n)"
  by simp

lemma keeps_storage_for_loop [keeps_intros]:
  "(\<And>i. keeps_storage (body i)) \<Longrightarrow> keeps_storage (for_loop i k body)"
  by (induction k arbitrary: i) (simp_all add: keeps_intros)

lemma put_slot_kept: "storage_kept st (put_slot p s st)"
  by (auto simp: storage_kept_def put_slot_def split: option.splits)

lemma keeps_storage_load [keeps_intros]: "keeps_storage (load p)"
  by (auto simp: keeps_storage_def load_def storage_kept_refl split: option.splits slot.splits)

lemma keeps_storage_assign_obj [keeps_intros]: "keeps_storage (assign_obj p v)"
  by (auto simp: keeps_storage_def assign_obj_def storage_kept_refl put_slot_kept
      split: option.splits slot.splits)

lemma keeps_storage_Destroy [keeps_intros]: "keeps_storage (Destroy p)"
  by (auto simp: keeps_storage_def Destroy_def storage_kept_refl put_slot_kept
      split: option.splits slot.splits)

lemma keeps_storage_ptr_minus [keeps_intros]: "keeps_storage (ptr_minus p k)"
  by (simp add: ptr_minus_def keeps_intros)

lemma keeps_storage_ptr_diff [keeps_intros]: "keeps_storage (ptr_diff p q)"
  by (simp add: ptr_diff_def keeps_intros)

lemma keeps_storage_this_obj [keeps_intros]: "keeps_storage (this_obj this)"
  by (simp add: keeps_storage_def this_obj_def storage_kept_refl)

lemma keeps_storage_set_size [keeps_intros]: "keeps_storage (set_size this n)"
  by (auto simp: keeps_storage_def set_size_def bnd_def this_obj_def put_obj_def storage_kept_def
      map_update intro: list_update_same_conv [THEN iffD2])

lemma keeps_storage_RawMemory_plus [keeps_intros]: "keeps_storage (RawMemory_plus d k)"
  by (simp add: RawMemory_plus_def keeps_intros)

lemma keeps_storage_PopBack [keeps_intros]: "keeps_storage (PopBack this)"
  unfolding PopBack_def by (intro keeps_intros)

lemma keeps_storage_Erase [keeps_intros]: "keeps_storage (Erase tr this pos)"
  unfolding Erase_def Vector_begin_def Vector_end_def std_move_def move_assign_def
  by (intro keeps_intros)

section \<open>What a normal return establishes\<close>

lemma quiet_id: "fuse st = None \<Longrightarrow> quiet st = st"
  by (simp add: quiet_def)

lemma returns_withI:
  assumes er: "erasable m" and q: "m (quiet st) = (Inr r0, s)"
    and Q: "\<And>st'. quiet st' = s \<Longrightarrow> Q r0 st'"
  shows "returns_with m st Q"
proof (cases "m st")
  case (Pair res st')
  show ?thesis
  proof (cases res)
    case (Inr r)
    with Pair have "m (quiet st) = (Inr r, quiet st')" using er by (simp add: erasableD)
    with q have "r = r0" and "quiet st' = s" by simp_all
    with Q Pair Inr show ?thesis by (simp add: returns_with_def)
  next
    case (Inl e)
    have "fuse st \<noteq> None"
    proof
      assume "fuse st = None"
      then have "quiet st = st" by (rule quiet_id)
      with q Pair Inl show False by simp
    qed
    with Pair Inl show ?thesis by (simp add: returns_with_def)
  qed
qed

lemma returns_with_mono:
  "returns_with m st Q \<Longrightarrow> (\<And>r st'. Q r st' \<Longrightarrow> Q' r st') \<Longrightarrow> returns_with m st Q'"
  by (auto simp: returns_with_def split: prod.splits sum.splits)

lemma returns_withD: "returns_with m st Q \<Longrightarrow> m st = (Inr r, st') \<Longrightarrow> Q r st'"
  by (simp add: returns_with_def)

lemma returns_with_quiet:
  "returns_with m st Q \<Longrightarrow> fuse st = None \<Longrightarrow> \<exists>r st'. m st = (Inr r, st') \<and> Q r st'"
  by (auto simp: returns_with_def split: prod.splits sum.splits)

lemma holds_of_quiet: "quiet st' = s \<Longrightarrow> holds s this b c xs \<Longrightarrow> holds st' this b c xs"
  by (metis holds_quiet)

lemma Reserve_returns:
  assumes h: "holds st this b c xs" and al: "allocatable tr n" and sm: "length xs < 2 ^ 31"
  shows "returns_with (Reserve tr this n) st (\<lambda>_ st'. \<exists>b'. holds st' this b' (max c n) xs)"
proof -
  from h have "holds (quiet st) this b c xs" by simp
  from Reserve_holds [OF this fuse_quiet al sm] obtain s b'
    where q: "Reserve tr this n (quiet st) = (Inr (), s)" and hs: "holds s this b' (max c n) xs"
    by blast
  show ?thesis
    by (rule returns_withI [OF erasable_Reserve q]) (use hs in auto)
qed

lemma Resize_returns:
  assumes h: "holds st this b c xs" and al: "allocatable tr n" and sm: "length xs < 2 ^ 31"
  shows "returns_with (Resize tr this n) st
    (\<lambda>_ st'. \<exists>b'. holds st' this b' (max c n)
        (take n xs @ replicate (n - length xs) (default_initialized tr)))"
proof -
  from h have hq: "holds (quiet st) this b c xs" by simp
  from h have le: "length xs \<le> c" by (simp add: holds_def)
  have "\<exists>s b'. Resize tr this n (quiet st) = (Inr (), s) \<and>
      holds s this b' (max c n) (take n xs @ replicate (n - length xs) (default_initialized tr))"
  proof (cases "n \<le> length xs")
    case True
    with le have "max c n = c" by simp
    with Resize_shrink [OF hq True, of tr] True show ?thesis by auto
  next
    case False
    then have "length xs < n" by simp
    from Resize_grow [OF hq fuse_quiet this al sm] False show ?thesis by auto
  qed
  then obtain s b' where q: "Resize tr this n (quiet st) = (Inr (), s)"
    and hs: "holds s this b' (max c n) (take n xs @ replicate (n - length xs) (default_initialized tr))"
    by blast
  show ?thesis
    by (rule returns_withI [OF erasable_Resize q]) (use hs in auto)
qed

lemma EmplaceBack_returns:
  assumes h: "holds st this b c xs" and g: "growable tr (length xs)"
  shows "returns_with (EmplaceBack tr this (Val v)) st
    (\<lambda>_ st'. \<exists>b'. holds st' this b' (if length xs < c then c else if c = 0 then 1 else c * 2)
        (xs @ [v]))"
proof -
  from h have "holds (quiet st) this b c xs" by simp
  from EmplaceBack_holds [OF this fuse_quiet g, of v] obtain s b'
    where q: "EmplaceBack tr this (Val v) (quiet st) = (Inr (b', length xs), s)"
      and hs: "holds s this b' (if length xs < c then c else if c = 0 then 1 else c * 2) (xs @ [v])"
    by blast
  show ?thesis
    by (rule returns_withI [OF erasable_EmplaceBack q]) (use hs in auto)
qed

lemma PushBack_returns:
  assumes h: "holds st this b c xs" and g: "growable tr (length xs)"
  shows "returns_with (PushBack tr this (Val v)) st
    (\<lambda>_ st'. \<exists>b'. holds st' this b' (if length xs < c then c else if c = 0 then 1 else c * 2)
        (xs @ [v]))"
  using EmplaceBack_returns [OF h g, of v]
  by (auto simp: returns_with_def PushBack_def seqn_def bnd_def split: prod.splits sum.splits)

lemma PopBack_returns:
  assumes h: "holds st this b c xs"
  shows "returns_with (PopBack this) st (\<lambda>_ st'. holds st' this b c (butlast xs))"
proof -
  from h have hq: "holds (quiet st) this b c xs" by simp
  have "\<exists>s. PopBack this (quiet st) = (Inr (), s) \<and> holds s this b c (butlast xs)"
  proof (cases "xs = []")
    case True
    with hq PopBack_empty [of "quiet st" this b c] show ?thesis by simp
  next
    case False
    from PopBack_nonempty [OF hq False] obtain a where a: "b = Some a"
      and run: "PopBack this (quiet st) =
        (Inr (), (quiet st)\<lparr>heap := (heap (quiet st))(a \<mapsto> (filled xs c)[length xs - 1 := Raw]),
                   objs := (objs (quiet st))[this := (objs (quiet st) ! this)\<lparr>m_size := length xs - 1\<rparr>]\<rparr>)"
      by blast
    from h have le: "length xs \<le> c" by (simp add: holds_def)
    have fb: "(filled xs c)[length xs - 1 := Raw] = filled (butlast xs) c"
      using False le by (rule filled_butlast)
    from hq a le False show ?thesis
      unfolding run fb by (auto simp: holds_def)
  qed
  then obtain s where q: "PopBack this (quiet st) = (Inr (), s)"
    and hs: "holds s this b c (butlast xs)" by blast
  show ?thesis
    by (rule returns_withI [OF erasable_PopBack q]) (use hs in auto)
qed

lemma Emplace_returns:
  assumes h: "holds st this b c xs" and k: "k \<le> length xs" and g: "growable tr (length xs)"
  shows "returns_with (Emplace tr this (b, k) (Val v)) st
    (\<lambda>_ st'. \<exists>b'. holds st' this b' (if length xs < c then c else if c = 0 then 1 else c * 2)
        (take k xs @ v # drop k xs))"
proof -
  from h have "holds (quiet st) this b c xs" by simp
  from Emplace_holds [OF this fuse_quiet k g, of v] obtain s b'
    where q: "Emplace tr this (b, k) (Val v) (quiet st) = (Inr (b', k), s)"
      and hs: "holds s this b' (if length xs < c then c else if c = 0 then 1 else c * 2)
          (take k xs @ v # drop k xs)"
    by blast
  show ?thesis
    by (rule returns_withI [OF erasable_Emplace q]) (use hs in auto)
qed

lemma Erase_returns:
  assumes h: "holds st this b c xs" and k: "k < length xs"
  shows "returns_with (Erase tr this (b, k)) st
    (\<lambda>r st'. r = (b, k) \<and> holds st' this b c (take k xs @ drop (Suc k) xs))"
proof -
  from h have "holds (quiet st) this b c xs" by simp
  from Erase_holds [OF this fuse_quiet k, of tr] obtain s
    where q: "Erase tr this (b, k) (quiet st) = (Inr (b, k), s)"
      and hs: "holds s this b c (take k xs @ drop (Suc k) xs)"
    by blast
  show ?thesis
    by (rule returns_withI [OF erasable_Erase q]) (use hs in auto)
qed

lemma Vector_ctor_returns:
  assumes h: "holds st this b c xs"
  shows "returns_with Vector_ctor st
    (\<lambda>r st'. r = length (objs st) \<and> holds st' r None 0 [] \<and> holds st' this b c xs)"
  using Vector_ctor_holds [of st] holds_append_obj [OF h]
  by (simp add: returns_with_def)

lemma Vector_sized_ctor_returns:
  assumes al: "allocatable tr n"
  shows "returns_with (Vector_sized_ctor tr n) st
    (\<lambda>r st'. \<exists>b'. r = length (objs st) \<and> holds st' r b' n (replicate n (value_initialized tr)))"
proof -
  from Vector_sized_ctor_holds [OF fuse_quiet al, of st] obtain s b'
    where q: "Vector_sized_ctor tr n (quiet st) = (Inr (length (objs st)), s)"
      and hs: "holds s (length (objs st)) b' n (replicate n (value_initialized tr))"
    by auto
  show ?thesis
    by (rule returns_withI [OF erasable_Vector_sized_ctor q]) (use hs in auto)
qed

lemma Vector_copy_ctor_returns:
  assumes h: "holds st other bo co ys" and al: "allocatable tr (length ys)"
  shows "returns_with (Vector_copy_ctor tr other) st
    (\<lambda>r st'. \<exists>b'. r = length (objs st) \<and> holds st' r b' (length ys) ys \<and> holds st' other bo co ys)"
proof -
  from h have "holds (quiet st) other bo co ys" by simp
  from Vector_copy_ctor_holds [OF this fuse_quiet al] obtain s b'
    where q: "Vector_copy_ctor tr other (quiet st) = (Inr (length (objs st)), s)"
      and hs: "holds s (length (objs st)) b' (length ys) ys" "holds s other bo co ys"
    by auto
  show ?thesis
    by (rule returns_withI [OF erasable_Vector_copy_ctor q]) (use hs in auto)
qed

lemma Vector_move_ctor_returns:
  assumes h: "holds st other bo co ys"
  shows "returns_with (Vector_move_ctor other) st
    (\<lambda>r st'. r = length (objs st) \<and> holds st' r bo co ys \<and> holds st' other None 0 [])"
  using Vector_move_ctor_holds [OF h] by (auto simp: returns_with_def)

lemma Vector_Swap_returns:
  assumes h: "holds st this b c xs" and ho: "holds st other bo co ys"
  shows "returns_with (Vector_Swap this other) st
    (\<lambda>_ st'. holds st' this bo co ys \<and> holds st' other b c xs)"
  using Vector_Swap_holds [OF h ho] by (auto simp: returns_with_def)

lemma Vector_copy_assign_returns:
  assumes h: "holds st this b c xs" and ho: "holds st other bo co ys"
    and sep: "this = other \<or> (\<forall>a. b = Some a \<longrightarrow> bo \<noteq> Some a)"
    and al: "allocatable tr (length ys)"
  shows "returns_with (Vector_copy_assign tr this other) st
    (\<lambda>_ st'. \<exists>b'. holds st' this b' (max c (length ys)) ys \<and> holds st' other bo co ys)"
proof (cases "this = other")
  case True
  from h have lt: "this < length (objs st)" and le: "length xs \<le> c" by (simp_all add: holds_def)
  from ho True have ho': "holds st this bo co ys" by simp
  from holds_elements [OF h] holds_elements [OF ho'] have ys: "ys = xs" by simp
  from h have "m_data (objs st ! this) = \<lparr>m_buffer = b, m_capacity = c\<rparr>"
    by (simp add: holds_def)
  moreover from ho' have "m_data (objs st ! this) = \<lparr>m_buffer = bo, m_capacity = co\<rparr>"
    by (simp add: holds_def)
  ultimately have "bo = b" and "co = c" by simp_all
  note same = this ys
  have run: "Vector_copy_assign tr this this st = (Inr (), st)"
    using lt
    by (simp add: Vector_copy_assign_def seqn_def bnd_def this_obj_def set_size_def put_obj_def)
  from le have mx: "max c (length xs) = c" by simp
  have "returns_with (Vector_copy_assign tr this this) st
      (\<lambda>_ st'. \<exists>b'. holds st' this b' (max c (length xs)) xs \<and> holds st' this b c xs)"
    unfolding returns_with_def run mx using h by auto
  then show ?thesis unfolding same True [symmetric] .
next
  case False
  with sep have sep': "\<And>a. b = Some a \<Longrightarrow> bo \<noteq> Some a" by blast
  from h have hq: "holds (quiet st) this b c xs" by simp
  from ho have hoq: "holds (quiet st) other bo co ys" by simp
  from Vector_copy_assign_holds [OF hq hoq fuse_quiet False sep' al] obtain s b'
    where q: "Vector_copy_assign tr this other (quiet st) = (Inr (), s)"
      and hs: "holds s this b' (max c (length ys)) ys" "holds s other bo co ys"
    by blast
  show ?thesis
    by (rule returns_withI [OF erasable_Vector_copy_assign q]) (use hs in auto)
qed

section \<open>What removal touches\<close>

lemma storage_kept_Capacity:
  assumes "storage_kept st st'" and "i < length (objs st)"
  shows "Capacity (objs st' ! i) = Capacity (objs st ! i) \<and>
         m_buffer (m_data (objs st' ! i)) = m_buffer (m_data (objs st ! i))"
proof -
  from assms(1) have eq: "map m_data (objs st') = map m_data (objs st)"
    by (simp add: storage_kept_def)
  then have len: "length (objs st') = length (objs st)" by (metis length_map)
  from eq have "map m_data (objs st') ! i = map m_data (objs st) ! i" by simp
  with assms(2) len have "m_data (objs st' ! i) = m_data (objs st ! i)" by simp
  then show ?thesis by (simp add: Capacity_def RawMemory_Capacity_def)
qed

lemma keeps_storageD: "keeps_storage m \<Longrightarrow> storage_kept st (snd (m st))"
  by (simp add: keeps_storage_def)

lemma holds_nonempty_block:
  assumes h: "holds st this b c xs" and ne: "xs \<noteq> []"
  shows "\<exists>a. b = Some a \<and> heap st a = Some (filled xs c) \<and> block_of st this = filled xs c"
  using assms by (cases b) (auto simp: holds_def block_of_def)

lemma take_filled_prefix:
  assumes "k \<le> length ys" and "k \<le> length xs" and "take k ys = take k xs"
  shows "take k (filled ys c) = take k (filled xs c)"
  using assms by (simp add: filled_def take_map)

lemma Erase_frame:
  assumes h: "holds st this b c xs" and k: "k < length xs"
  shows "returns_with (Erase tr this (b, k)) st
    (\<lambda>r st'. r = (b, k) \<and>
        objs st' = (objs st)[this := (objs st ! this)\<lparr>m_size := length xs - 1\<rparr>] \<and>
        heap st' = (heap st)(the b \<mapsto> filled (take k xs @ drop (Suc k) xs) c))"
proof -
  from h have hq: "holds (quiet st) this b c xs" by simp
  note q = Erase_quiet [OF hq fuse_quiet k, of tr]
  show ?thesis
  proof (rule returns_withI [OF erasable_Erase q])
    fix st' :: "'a machine"
    assume e: "quiet st' = (quiet st)\<lparr>heap := (heap (quiet st))(the b \<mapsto> filled (take k xs @ drop (Suc k) xs) c),
        objs := (objs (quiet st))[this := (objs (quiet st) ! this)\<lparr>m_size := length xs - 1\<rparr>]\<rparr>"
    have "objs st' = objs (quiet st')" by simp
    also have "\<dots> = (objs st)[this := (objs st ! this)\<lparr>m_size := length xs - 1\<rparr>]"
      unfolding e by simp
    finally have 1: "objs st' = (objs st)[this := (objs st ! this)\<lparr>m_size := length xs - 1\<rparr>]" .
    have "heap st' = heap (quiet st')" by simp
    also have "\<dots> = (heap st)(the b \<mapsto> filled (take k xs @ drop (Suc k) xs) c)"
      unfolding e by simp
    finally have 2: "heap st' = (heap st)(the b \<mapsto> filled (take k xs @ drop (Suc k) xs) c)" .
    from 1 2 show "(b, k) = (b, k) \<and>
        objs st' = (objs st)[this := (objs st ! this)\<lparr>m_size := length xs - 1\<rparr>] \<and>
        heap st' = (heap st)(the b \<mapsto> filled (take k xs @ drop (Suc k) xs) c)" by simp
  qed
qed

lemma block_of_after:
  assumes "this < length (objs st)" and "m_buffer (m_data (objs st ! this)) = Some a"
    and "objs st' = (objs st)[this := (objs st ! this)\<lparr>m_size := n\<rparr>]"
    and "heap st' = (heap st)(a \<mapsto> blk)"
  shows "block_of st' this = blk"
  using assms by (simp add: block_of_def)

section \<open>From the invariant to the representation and back\<close>

lemma holds_Capacity: "holds st this b c xs \<Longrightarrow> Capacity (objs st ! this) = c"
  by (simp add: holds_def Capacity_def RawMemory_Capacity_def)

lemma holds_buffer: "holds st this b c xs \<Longrightarrow> m_buffer (m_data (objs st ! this)) = b"
  by (simp add: holds_def)

lemma returns_with_final:
  "returns_with m st (\<lambda>_. P) \<Longrightarrow> fuse st = None \<Longrightarrow> (\<exists>r. fst (m st) = Inr r) \<and> P (snd (m st))"
  by (auto simp: returns_with_def split: prod.splits sum.splits)

lemma growth_formula:
  "length xs \<le> c \<Longrightarrow>
   (if length xs < c then c else if c = 0 then 1 else c * 2) =
   (if length xs = c then max 1 (2 * length xs) else c)"
  by auto

lemma separate_holds:
  assumes "separate st this other" and "holds st this b c xs" and "holds st other bo co ys"
  shows "this = other \<or> (\<forall>a. b = Some a \<longrightarrow> bo \<noteq> Some a)"
  using assms(1) holds_buffer [OF assms(2)] holds_buffer [OF assms(3)]
  by (auto simp: separate_def split: option.splits)

lemma queries_keep_state:
  "snd (Vector_at this i st) = st \<and> snd (Vector_begin this st) = st \<and>
   snd (Vector_end this st) = st"
  by (simp add: Vector_at_def Vector_begin_def Vector_end_def bnd_def this_obj_def
      RawMemory_at_def RawMemory_plus_def)

section \<open>Counts beyond the int\<close>

lemma push_all_append:
  "push_all tr this (xs @ ys) = seqn (push_all tr this xs) (push_all tr this ys)"
proof (induction xs)
  case Nil
  show ?case by (simp add: seqn_def bnd_def fun_eq_iff)
next
  case (Cons x xs)
  then show ?case
    by (simp add: seqn_def bnd_def fun_eq_iff split: prod.splits sum.splits)
qed

text \<open>
  The capacity that appends alone give a vector of the size \<open>n\<close>: zero for the empty
  vector, the least power of two that is not below \<open>n\<close> otherwise.
\<close>

lemma EmplaceBack_tight:
  assumes h: "holds st this b c xs" and q: "fuse st = None" and g: "growable tr (length xs)"
    and t: "(length xs = 0 \<and> c = 0) \<or> (\<exists>k. c = 2 ^ k \<and> length xs \<le> c \<and> c < 2 * length xs)"
  shows "\<exists>st' b' c'. EmplaceBack tr this (Val v) st = (Inr (b', length xs), st') \<and>
           holds st' this b' c' (xs @ [v]) \<and> fuse st' = None \<and>
           (\<exists>k. c' = 2 ^ k \<and> Suc (length xs) \<le> c' \<and> c' < 2 * Suc (length xs))"
proof -
  from EmplaceBack_holds [OF h q g, of v] obtain st' b' c'
    where e: "EmplaceBack tr this (Val v) st = (Inr (b', length xs), st')"
      and h': "holds st' this b' c' (xs @ [v])" and q': "fuse st' = None"
      and c': "c' = (if length xs < c then c else if c = 0 then 1 else c * 2)"
    by blast
  from h have le: "length xs \<le> c" by (simp add: holds_def)
  have "\<exists>k. c' = 2 ^ k \<and> Suc (length xs) \<le> c' \<and> c' < 2 * Suc (length xs)"
  proof (cases "length xs < c")
    case True
    with t c' show ?thesis by auto
  next
    case False
    with le have full: "length xs = c" by simp
    show ?thesis
    proof (cases "c = 0")
      case True
      with c' full have "c' = 2 ^ 0" by simp
      with True full show ?thesis by (intro exI [of _ 0]) simp
    next
      case False
      with t full obtain k where "c = 2 ^ k" by auto
      with False c' full have "c' = 2 ^ Suc k" by simp
      with False c' full show ?thesis by (intro exI [of _ "Suc k"]) simp
    qed
  qed
  with e h' q' show ?thesis by blast
qed

lemma push_all_tight:
  assumes "holds st this b c xs" and "fuse st = None"
    and "\<And>n. n < length xs + length vals \<Longrightarrow> growable tr n"
    and "(length xs = 0 \<and> c = 0) \<or> (\<exists>k. c = 2 ^ k \<and> length xs \<le> c \<and> c < 2 * length xs)"
  shows "\<exists>st' b' c'. push_all tr this vals st = (Inr (), st') \<and>
           holds st' this b' c' (xs @ vals) \<and> fuse st' = None \<and>
           ((length (xs @ vals) = 0 \<and> c' = 0) \<or>
            (\<exists>k. c' = 2 ^ k \<and> length (xs @ vals) \<le> c' \<and> c' < 2 * length (xs @ vals)))"
  using assms
proof (induction vals arbitrary: st b c xs)
  case Nil
  then show ?case by auto
next
  case (Cons v vals)
  have g: "growable tr (length xs)"
    by (rule Cons.prems(3)) simp
  from EmplaceBack_tight [OF Cons.prems(1,2) g Cons.prems(4), of v] obtain st1 b1 c1
    where e: "EmplaceBack tr this (Val v) st = (Inr (b1, length xs), st1)"
      and h1: "holds st1 this b1 c1 (xs @ [v])" and q1: "fuse st1 = None"
      and t1: "\<exists>k. c1 = 2 ^ k \<and> Suc (length xs) \<le> c1 \<and> c1 < 2 * Suc (length xs)"
    by blast
  have g1: "growable tr n" if "n < length (xs @ [v]) + length vals" for n
    by (rule Cons.prems(3)) (use that in simp)
  from t1 have t1': "(length (xs @ [v]) = 0 \<and> c1 = 0) \<or>
      (\<exists>k. c1 = 2 ^ k \<and> length (xs @ [v]) \<le> c1 \<and> c1 < 2 * length (xs @ [v]))"
    by simp
  from Cons.IH [OF h1 q1 g1 t1'] obtain st' b' c'
    where "push_all tr this vals st1 = (Inr (), st')"
      and "holds st' this b' c' ((xs @ [v]) @ vals)" and "fuse st' = None"
      and "(length ((xs @ [v]) @ vals) = 0 \<and> c' = 0) \<or>
            (\<exists>k. c' = 2 ^ k \<and> length ((xs @ [v]) @ vals) \<le> c' \<and> c' < 2 * length ((xs @ [v]) @ vals))"
    by blast
  with e show ?case by (auto simp: PushBack_def seqn_def bnd_def)
qed

lemma power_two_between:
  assumes "(2::nat) ^ m \<le> 2 ^ k" and "(2::nat) ^ k < 2 * 2 ^ m"
  shows "k = m"
proof -
  from assms(1) have "m \<le> k" by simp
  moreover from assms(2) have "(2::nat) ^ k < 2 ^ Suc m" by simp
  then have "k < Suc m" by (simp only: power_strict_increasing_iff one_less_numeral_iff semiring_norm)
  ultimately show ?thesis by simp
qed


lemma MoveOrCopyUninitialized_negative:
  "k < 0 \<Longrightarrow> MoveOrCopyUninitialized tr p k p' = raise Abort"
  by (simp add: MoveOrCopyUninitialized_def counted_negative)

lemma construct_from_quiet_cases:
  assumes "fuse st = None"
  obtains s where "construct_from p a st = (Inl Abort, s)"
  | s where "construct_from p a st = (Inr (), s)" and "fuse s = None"
proof (cases "construct_from p a st")
  case (Pair r s)
  show ?thesis
  proof (cases r)
    case (Inl e)
    with Pair assms have "e = Abort"
      by (cases a)
        (auto simp: construct_from_def bnd_def seqn_def load_def emplace_obj_def
          split: option.splits slot.splits prod.splits sum.splits if_splits)
    with Pair Inl that(1) show ?thesis by simp
  next
    case (Inr u)
    with Pair assms have "fuse s = None"
      by (cases a)
        (auto simp: construct_from_def bnd_def seqn_def load_def emplace_obj_def put_slot_def
          split: option.splits slot.splits prod.splits sum.splits if_splits)
    with Pair Inr that(2) show ?thesis by simp
  qed
qed

lemma EmplaceBack_count_overflow:
  assumes h: "holds st this b c xs" and q: "fuse st = None" and full: "length xs = c"
    and big: "2 ^ 31 \<le> c" "c < 2 ^ 32" and al: "allocatable tr (c * 2)"
  shows "fst (EmplaceBack tr this a st) = Inl Abort"
proof -
  let ?b' = "brk st"
  from big have cpos: "c \<noteq> 0" and c2: "c * 2 \<noteq> 0" by auto
  define V where "V = \<lparr>m_data = \<lparr>m_buffer = b, m_capacity = c\<rparr>, m_size = c\<rparr>"
  define ND where "ND = \<lparr>m_buffer = Some ?b', m_capacity = c * 2\<rparr>"
  define st1 where "st1 = st\<lparr>heap := (heap st)(?b' \<mapsto> map (\<lambda>_. Raw) [0..<c * 2]), brk := Suc ?b'\<rparr>"
  have s0: "this_obj this st = (Inr V, st)"
    using this_obj_holds [OF h] by (simp add: V_def full)
  have s1: "RawMemory_ctor tr (c * 2) st = (Inr ND, st1)"
    using RawMemory_ctor_quiet [OF c2 q al] by (simp add: ND_def st1_def)
  have q1: "fuse st1 = None" using q by (simp add: st1_def)
  have dbl: "size_t (int c * 2) = c * 2"
    using big by (intro size_t_double) simp
  have neg: "to_int (int c) < 0"
    using big by (rule to_int_negative)
  note mv = MoveOrCopyUninitialized_negative [OF neg]
  show ?thesis
  proof (rule construct_from_quiet_cases [OF q1, of "(Some ?b', c)" a])
    fix s assume "construct_from (Some ?b', c) a st1 = (Inl Abort, s)"
    with s0 s1 cpos show ?thesis
      by (simp add: EmplaceBack_def run_defs V_def ND_def dbl)
  next
    fix s assume "construct_from (Some ?b', c) a st1 = (Inr (), s)" and "fuse s = None"
    with s0 s1 cpos show ?thesis
      by (simp add: EmplaceBack_def run_defs V_def ND_def dbl mv)
  qed
qed


lemma int_traits_growable: "n < 2 ^ 31 \<Longrightarrow> growable int_traits n"
  by (auto simp: growable_def allocatable_def int_traits_def)

lemma appends_up_to_int:
  fixes x :: cint
  assumes N: "N = 2 ^ 31"
  shows "\<exists>st b. bnd Vector_ctor (\<lambda>v. push_all int_traits v (replicate N x)) initial = (Inr (), st) \<and>
           holds st 0 b N (replicate N x) \<and> fuse st = None"
proof -
  define s0 :: "cint machine"
    where "s0 = initial\<lparr>objs := objs initial @ [\<lparr>m_data = RawMemory_default, m_size = 0\<rparr>]\<rparr>"
  have c0: "Vector_ctor initial = (Inr 0, s0)" and h0: "holds s0 0 None 0 []"
    using Vector_ctor_holds [of "initial :: cint machine"] by (simp_all add: s0_def initial_def)
  have q0: "fuse s0 = None" by (simp add: s0_def initial_def)
  have g: "growable int_traits n" if "n < length ([] :: cint list) + length (replicate N x)" for n
    by (rule int_traits_growable) (use that N in simp)
  have t0: "(length ([] :: cint list) = 0 \<and> (0::nat) = 0) \<or>
      (\<exists>k. (0::nat) = 2 ^ k \<and> length ([] :: cint list) \<le> 0 \<and> (0::nat) < 2 * length ([] :: cint list))"
    by simp
  from push_all_tight [OF h0 q0 g t0] obtain st b c
    where run: "push_all int_traits 0 (replicate N x) s0 = (Inr (), st)"
      and h: "holds st 0 b c ([] @ replicate N x)" and q: "fuse st = None"
      and t: "(length ([] @ replicate N x) = 0 \<and> c = 0) \<or>
            (\<exists>k. c = 2 ^ k \<and> length ([] @ replicate N x) \<le> c \<and> c < 2 * length ([] @ replicate N x))"
    by blast
  have Npos: "N \<noteq> 0" unfolding N by simp
  with t obtain k where ck: "c = 2 ^ k" and le: "N \<le> c" and lt: "c < 2 * N"
    by auto
  from le have "(2::nat) ^ 31 \<le> 2 ^ k" unfolding ck N .
  moreover from lt have "(2::nat) ^ k < 2 * 2 ^ 31" unfolding ck N .
  ultimately have "k = 31" by (rule power_two_between)
  with ck N have "c = N" by simp
  with h have "holds st 0 b N (replicate N x)" by simp
  with run c0 q show ?thesis by (auto simp: bnd_def)
qed


lemma appends_at_int:
  fixes x :: cint
  assumes N: "N = 2 ^ 31"
  shows "fst (bnd Vector_ctor (\<lambda>v. push_all int_traits v (replicate N x)) initial) = Inr ()"
    and "elements (snd (bnd Vector_ctor (\<lambda>v. push_all int_traits v (replicate N x)) initial)) 0 =
           replicate N x"
    and "Capacity (objs (snd (bnd Vector_ctor (\<lambda>v. push_all int_traits v (replicate N x)) initial)) ! 0) = N"
  using appends_up_to_int [OF N, of x] by (auto dest: holds_elements holds_Capacity)

lemma append_after_int:
  fixes x :: cint
  assumes N: "N = 2 ^ 31"
  shows "fst (bnd Vector_ctor (\<lambda>v. push_all int_traits v (replicate (N + 1) x)) initial) = Inl Abort"
proof -
  from appends_up_to_int [OF N, of x] obtain st b
    where run: "bnd Vector_ctor (\<lambda>v. push_all int_traits v (replicate N x)) initial = (Inr (), st)"
      and h: "holds st 0 b N (replicate N x)" and q: "fuse st = None"
    by blast
  have c0: "fst (Vector_ctor (initial :: cint machine)) = Inr 0"
    by (simp add: Vector_ctor_def new_obj_def initial_def)
  from run c0 have p: "push_all int_traits 0 (replicate N x) (snd (Vector_ctor initial)) = (Inr (), st)"
    by (auto simp: bnd_def split: prod.splits sum.splits)
  have al: "allocatable int_traits (N * 2)"
    unfolding N by (simp add: allocatable_def int_traits_def)
  have big: "2 ^ 31 \<le> N" "N < 2 ^ 32"
    unfolding N by simp_all
  have len: "length (replicate N x) = N" by simp
  have ab: "fst (EmplaceBack int_traits 0 (Val x) st) = Inl Abort"
    by (rule EmplaceBack_count_overflow [OF h q len big al])
  have split: "replicate (N + 1) x = replicate N x @ [x]"
    by (simp add: replicate_append_same)
  have "fst (push_all int_traits 0 (replicate (N + 1) x) (snd (Vector_ctor initial))) = Inl Abort"
    unfolding split push_all_append using p ab
    by (auto simp: seqn_def bnd_def PushBack_def split: prod.splits sum.splits)
  with c0 show ?thesis
    by (auto simp: bnd_def split: prod.splits sum.splits)
qed

text \<open>
  Below these bounds appending gives the values: from an empty vector that satisfies the
  invariant, when each size that is passed is one at which the vector can be relocated.
\<close>

lemma appends_give_the_values:
  assumes "vec_inv st this" and "m_size (objs st ! this) = 0"
    and "\<And>n. n < length vals \<Longrightarrow> growable tr n"
  shows "(fuse st = None \<longrightarrow> (\<exists>st'. push_all tr this vals st = (Inr (), st'))) \<and>
         (\<forall>st'. push_all tr this vals st = (Inr (), st') \<longrightarrow>
            Size (objs st' ! this) = length vals \<and>
            (\<forall>i<length vals. read_at this i st' = (Inr (vals ! i), st')) \<and>
            elements st' this = vals \<and> vec_inv st' this)"
proof -
  from assms(1) have h: "holds st this (m_buffer (m_data (objs st ! this)))
      (m_capacity (m_data (objs st ! this))) (elements st this)"
    by (rule vec_inv_holds)
  from holds_size [OF h] assms(2) have e: "elements st this = []" by simp
  have g: "growable tr n" if "n < length (elements st this) + length vals" for n
    by (rule assms(3)) (use that e in simp)
  have returns: "\<exists>st'. push_all tr this vals st = (Inr (), st')" if "fuse st = None"
    using push_all_holds [where vals = vals, OF h that g] by blast
  have after: "Size (objs st' ! this) = length vals \<and>
            (\<forall>i<length vals. read_at this i st' = (Inr (vals ! i), st')) \<and>
            elements st' this = vals \<and> vec_inv st' this"
    if run: "push_all tr this vals st = (Inr (), st')" for st'
  proof -
    have "push_all tr this vals (quiet st) = (Inr (), quiet st')"
      using erasable_push_all run by (rule erasableD)
    moreover from h have "holds (quiet st) this (m_buffer (m_data (objs st ! this)))
        (m_capacity (m_data (objs st ! this))) (elements st this)"
      by simp
    from push_all_holds [where vals = vals, OF this fuse_quiet g] e obtain s b' c'
      where "push_all tr this vals (quiet st) = (Inr (), s)" and "holds s this b' c' vals"
      by auto
    ultimately have h': "holds st' this b' c' vals" by simp
    from h' have "Size (objs st' ! this) = length vals" by (simp add: holds_def Size_def)
    moreover have "\<forall>i<length vals. read_at this i st' = (Inr (vals ! i), st')"
      using read_at_holds [OF h'] by blast
    ultimately show ?thesis
      using holds_elements [OF h'] holds_vec_inv [OF h'] by blast
  qed
  from returns after show ?thesis by blast
qed

lemma InsertionWithRelocation_count_overflow:
  assumes h: "holds st this b c xs" and q: "fuse st = None" and full: "length xs = c"
    and big: "2 ^ 31 \<le> c" "c < 2 ^ 32" and al: "allocatable tr (c * 2)"
  shows "fst (InsertionWithRelocation tr this 0 a st) = Inl Abort"
proof -
  let ?b' = "brk st"
  from big have cpos: "c \<noteq> 0" and c2: "c * 2 \<noteq> 0" by auto
  define V where "V = \<lparr>m_data = \<lparr>m_buffer = b, m_capacity = c\<rparr>, m_size = c\<rparr>"
  define ND where "ND = \<lparr>m_buffer = Some ?b', m_capacity = c * 2\<rparr>"
  define st1 where "st1 = st\<lparr>heap := (heap st)(?b' \<mapsto> map (\<lambda>_. Raw) [0..<c * 2]), brk := Suc ?b'\<rparr>"
  have s0: "this_obj this st = (Inr V, st)"
    using this_obj_holds [OF h] by (simp add: V_def full)
  have s1: "RawMemory_ctor tr (c * 2) st = (Inr ND, st1)"
    using RawMemory_ctor_quiet [OF c2 q al] by (simp add: ND_def st1_def)
  have q1: "fuse st1 = None" using q by (simp add: st1_def)
  have dbl: "size_t (int c * 2) = c * 2"
    using big by (intro size_t_double) simp
  have sz: "size_t (int c) = c"
    using big by (intro size_t_nat) simp
  have neg: "to_int (int c) < 0"
    using big by (rule to_int_negative)
  note mv = MoveOrCopyUninitialized_negative [OF neg]
  show ?thesis
  proof (rule construct_from_quiet_cases [OF q1, of "(Some ?b', 0)" a])
    fix s assume "construct_from (Some ?b', 0) a st1 = (Inl Abort, s)"
    with s0 s1 cpos show ?thesis
      by (simp add: InsertionWithRelocation_def run_defs V_def ND_def dbl)
  next
    fix s assume "construct_from (Some ?b', 0) a st1 = (Inr (), s)" and "fuse s = None"
    with s0 s1 cpos show ?thesis
      by (simp add: InsertionWithRelocation_def run_defs V_def ND_def dbl sz mv)
  qed
qed

lemma insert_at_count_overflow:
  assumes h: "holds st this b c xs" and q: "fuse st = None" and full: "length xs = c"
    and big: "2 ^ 31 \<le> c" "c < 2 ^ 32" and al: "allocatable tr (c * 2)"
  shows "fst (seqn (insert_at tr this 0 a) (erase_at tr this 0) st) = Inl Abort"
proof -
  from big have cpos: "c \<noteq> 0" by auto
  have "fst (Emplace tr this (b, 0) a st) = Inl Abort"
    using Vector_end_holds [OF h] Vector_begin_holds [OF h] this_obj_holds [OF h] full cpos
      InsertionWithRelocation_count_overflow [OF h q full big al, of a]
    by (auto simp: Emplace_def bnd_def seqn_def ptr_diff_def Capacity_def RawMemory_Capacity_def
        Let_def split: prod.splits sum.splits)
  then show ?thesis
    using Vector_begin_holds [OF h]
    by (auto simp: insert_at_def Insert_def seqn_def bnd_def split: prod.splits sum.splits)
qed

lemma sized_vector_at_int:
  assumes N: "N = 2 ^ 31"
  shows "\<exists>st b. Vector_sized_ctor int_traits N initial = (Inr 0, st) \<and>
           holds st 0 b N (replicate N (Num 0)) \<and> fuse st = None"
proof -
  have al: "allocatable int_traits N"
    unfolding N by (simp add: allocatable_def int_traits_def)
  have q: "fuse (initial :: cint machine) = None"
    by (simp add: initial_def)
  from Vector_sized_ctor_holds [OF q al] show ?thesis
    by (simp add: initial_def int_traits_def)
qed

lemma sized_vector_insert_at_int:
  assumes N: "N = 2 ^ 31"
  shows "fst (Vector_sized_ctor int_traits N initial) = Inr 0"
    and "elements (snd (Vector_sized_ctor int_traits N initial)) 0 = replicate N (Num 0)"
    and "vec_inv (snd (Vector_sized_ctor int_traits N initial)) 0"
    and "fst (bnd (Vector_sized_ctor int_traits N)
           (\<lambda>v. seqn (insert_at int_traits v 0 a) (erase_at int_traits v 0)) initial) = Inl Abort"
proof -
  from sized_vector_at_int [OF N] obtain st b
    where run: "Vector_sized_ctor int_traits N initial = (Inr 0, st)"
      and h: "holds st 0 b N (replicate N (Num 0))" and q: "fuse st = None"
    by blast
  from run show "fst (Vector_sized_ctor int_traits N initial) = Inr 0" by simp
  from run holds_elements [OF h]
  show "elements (snd (Vector_sized_ctor int_traits N initial)) 0 = replicate N (Num 0)" by simp
  from run holds_vec_inv [OF h]
  show "vec_inv (snd (Vector_sized_ctor int_traits N initial)) 0" by simp
  have al: "allocatable int_traits (N * 2)"
    unfolding N by (simp add: allocatable_def int_traits_def)
  have big: "2 ^ 31 \<le> N" "N < 2 ^ 32"
    unfolding N by simp_all
  have len: "length (replicate N (Num 0 :: cint)) = N" by simp
  from insert_at_count_overflow [OF h q len big al, of a] run
  show "fst (bnd (Vector_sized_ctor int_traits N)
           (\<lambda>v. seqn (insert_at int_traits v 0 a) (erase_at int_traits v 0)) initial) = Inl Abort"
    by (simp add: bnd_def)
qed

text \<open>
  Below these bounds an insertion followed by the removal at the same offset gives the
  element sequence back.
\<close>

lemma insert_then_erase_restores:
  assumes "vec_inv st this" and "k \<le> m_size (objs st ! this)"
    and "growable tr (m_size (objs st ! this))"
  shows "(fuse st = None \<longrightarrow>
            (\<exists>r st'. seqn (insert_at tr this k (Val v)) (erase_at tr this k) st = (Inr r, st'))) \<and>
         (\<forall>r st'. seqn (insert_at tr this k (Val v)) (erase_at tr this k) st = (Inr r, st') \<longrightarrow>
            elements st' this = elements st this \<and> vec_inv st' this)"
proof -
  let ?run = "seqn (insert_at tr this k (Val v)) (erase_at tr this k)"
  from assms(1) have h: "holds st this (m_buffer (m_data (objs st ! this)))
      (m_capacity (m_data (objs st ! this))) (elements st this)"
    by (rule vec_inv_holds)
  from holds_size [OF h] assms(2) have k: "k \<le> length (elements st this)" by simp
  from holds_size [OF h] assms(3) have g: "growable tr (length (elements st this))" by simp
  have returns: "\<exists>r st'. ?run st = (Inr r, st')" if "fuse st = None"
    using insert_then_erase_quiet [OF h that k g, of v] by blast
  have after: "elements st' this = elements st this \<and> vec_inv st' this"
    if run: "?run st = (Inr r, st')" for r st'
  proof -
    have "erasable ?run" by (intro erasable_intros)
    then have "?run (quiet st) = (Inr r, quiet st')"
      using run by (rule erasableD)
    moreover from h have "holds (quiet st) this (m_buffer (m_data (objs st ! this)))
        (m_capacity (m_data (objs st ! this))) (elements st this)"
      by simp
    from insert_then_erase_quiet [OF this fuse_quiet k g, of v] obtain r0 s b' c'
      where "?run (quiet st) = (Inr r0, s)" and "holds s this b' c' (elements st this)"
      by auto
    ultimately have h': "holds st' this b' c' (elements st this)" by simp
    show ?thesis
      using holds_elements [OF h'] holds_vec_inv [OF h'] by simp
  qed
  from returns after show ?thesis by blast
qed

section \<open>Appending\<close>

text \<open>
  Claim C1. An empty \<^verbatim>\<open>Vector<int>\<close> is built and \<open>2^31\<close> values are appended: the
  appends return normally, and the vector holds the values, full, with the capacity
  \<open>2^31\<close>. One more append relocates: \<^verbatim>\<open>EmplaceBack\<close> passes the size \<open>2^31\<close> for
  the \<^verbatim>\<open>int\<close> count of \<^verbatim>\<open>MoveOrCopyUninitialized\<close>, which receives \<open>-2^31\<close>
  and calls \<^verbatim>\<open>std::uninitialized_move_n\<close> with that negative count. The append does not
  return with the \<open>2^31 + 1\<close> values in the vector.
\<close>

theorem append_count_narrowed_to_int:
  "fst (bnd Vector_ctor (\<lambda>v. push_all int_traits v (replicate (2 ^ 31) (Num 0))) initial) = Inr () \<and>
   elements (snd (bnd Vector_ctor (\<lambda>v. push_all int_traits v (replicate (2 ^ 31) (Num 0))) initial)) 0 =
     replicate (2 ^ 31) (Num 0) \<and>
   Capacity (objs (snd (bnd Vector_ctor
       (\<lambda>v. push_all int_traits v (replicate (2 ^ 31) (Num 0))) initial)) ! 0) = 2 ^ 31 \<and>
   fst (bnd Vector_ctor (\<lambda>v. push_all int_traits v (replicate (2 ^ 31 + 1) (Num 0))) initial) = Inl Abort"
  by (intro conjI appends_at_int [OF refl] append_after_int [OF refl])

section \<open>Failures during insertion with relocation\<close>

text \<open>
  Claim C2. A full vector holds \<open>1, 2\<close> (capacity 2); \<open>9\<close> is inserted at offset 1, with
  an element type whose copy constructor may throw. The allocation and the construction of
  the target element succeed.

  When the copy of the prefix throws (the third operation that may throw), the handler
  destroys slot 1 of the old block (\<^verbatim>\<open>Destroy(data_ + pos_index)\<close>), not the target
  element in the new block: the vector is left with size 2 and a dead slot 1, and the target
  element is never destroyed.

  When the copy of the suffix throws (the fourth), the handler destroys the prefix in the
  new block (\<^verbatim>\<open>DestroyN(new_data.GetAddress(), pos_index)\<close>) but not the target
  element: the vector is unchanged, and the target element is never destroyed.
\<close>

theorem InsertionWithRelocation_failure_paths:
  "(let r = Insert throwing_traits 0 (Some 0, 1) (Val (Num 9)) (full_sample (Some 2))
    in fst r = Inl Thrown \<and>
       objs (snd r) = objs (full_sample (Some 2)) \<and>
       block_of (snd r) 0 = [Live (Num 1), Raw] \<and>
       leaked (snd r) = [Num 9]) \<and>
   (let r = Insert throwing_traits 0 (Some 0, 1) (Val (Num 9)) (full_sample (Some 3))
    in fst r = Inl Thrown \<and>
       objs (snd r) = objs (full_sample (Some 3)) \<and>
       block_of (snd r) 0 = [Live (Num 1), Live (Num 2)] \<and>
       leaked (snd r) = [Num 9])"
  by code_simp

section \<open>How the capacity changes\<close>





section \<open>Moving a RawMemory\<close>

text \<open>
  Claim C5. The move constructor hands the block and the capacity over and leaves the
  source empty. The move assignment does not: it exchanges the two block pointers and
  copies the capacity, so the source keeps a block (the one the destination owned) and its
  old capacity. Here the destination owns block 0 of capacity 2 and the source block 1 of
  capacity 5: after the assignment the source owns block 0 and still says capacity 5.
\<close>

theorem RawMemory_move_assign_source_kept:
  "RawMemory_move_ctor \<lparr>m_buffer = Some 1, m_capacity = 5\<rparr> =
     (\<lparr>m_buffer = Some 1, m_capacity = 5\<rparr>, \<lparr>m_buffer = None, m_capacity = 0\<rparr>) \<and>
   RawMemory_move_assign \<lparr>m_buffer = Some 0, m_capacity = 2\<rparr> \<lparr>m_buffer = Some 1, m_capacity = 5\<rparr> =
     (\<lparr>m_buffer = Some 1, m_capacity = 5\<rparr>, \<lparr>m_buffer = Some 0, m_capacity = 5\<rparr>)"
  by (simp add: RawMemory_move_ctor_def RawMemory_move_assign_def)

section \<open>Resizing down and up\<close>

text \<open>
  Claim C6. \<^verbatim>\<open>Resize\<close> builds the new elements with
  \<^verbatim>\<open>std::uninitialized_default_construct_n\<close>, which default-initialises them: an
  \<^verbatim>\<open>int\<close> is left with an indeterminate value, not with zero. (The constructor
  \<^verbatim>\<open>Vector(size_t)\<close> value-initialises, which gives zeros.) In the scenario of the
  specification the vector holds \<open>99, 2\<close> before the resize and
  \<open>99, 2, indeterminate, indeterminate\<close> after it.
\<close>

theorem Resize_int_tail_indeterminate:
  "fst (scenario initial) = Inr 0 \<and>
   elements (snd (scenario initial)) 0 = [Num 99, Num 2] \<and>
   fst (seqn scenario (Resize int_traits 0 4) initial) = Inr () \<and>
   elements (snd (seqn scenario (Resize int_traits 0 4) initial)) 0 =
     [Num 99, Num 2, Indeterminate, Indeterminate] \<and>
   elements (snd (Vector_sized_ctor int_traits 2 initial)) 0 = [Num 0, Num 0]"
  by code_simp

section \<open>Insertion followed by removal\<close>

text \<open>
  Claim C7. \<^verbatim>\<open>Vector<int> v(2147483648)\<close> builds a vector of \<open>2^31\<close> zeros, full,
  which satisfies the invariant. \<^verbatim>\<open>v.Insert(v.begin(), 7)\<close> relocates:
  \<^verbatim>\<open>InsertionWithRelocation\<close> passes \<^verbatim>\<open>size_ - pos_index\<close>, which is \<open>2^31\<close>,
  for the \<^verbatim>\<open>int\<close> count of \<^verbatim>\<open>MoveOrCopyUninitialized\<close>, which receives
  \<open>-2^31\<close> and calls \<^verbatim>\<open>std::uninitialized_move_n\<close> with that negative count. The
  insertion followed by the removal does not return with the original elements.
\<close>

theorem insert_count_narrowed_to_int:
  "fst (Vector_sized_ctor int_traits (2 ^ 31) initial) = Inr 0 \<and>
   elements (snd (Vector_sized_ctor int_traits (2 ^ 31) initial)) 0 = replicate (2 ^ 31) (Num 0) \<and>
   vec_inv (snd (Vector_sized_ctor int_traits (2 ^ 31) initial)) 0 \<and>
   fst (bnd (Vector_sized_ctor int_traits (2 ^ 31))
          (\<lambda>v. seqn (insert_at int_traits v 0 (Val (Num 7))) (erase_at int_traits v 0)) initial) =
     Inl Abort"
  by (intro conjI sized_vector_insert_at_int [OF refl])

section \<open>Removing the last element\<close>

text \<open>
  Claim C8. \<^verbatim>\<open>PopBack\<close> on a vector that satisfies the invariant returns normally.
  On a non-empty vector the last live slot (slot \<open>size - 1\<close>, which holds the last
  element) becomes raw and the size goes down by one; no other slot, no other block, and
  neither the buffer nor the capacity changes, and the elements are the former ones
  without the last. On an empty vector the state stays as it is.
\<close>

theorem PopBack_removes_last:
  assumes "vec_inv st this"
  shows "PopBack this st =
      (Inr (),
       if m_size (objs st ! this) = 0 then st
       else (put_slot (m_buffer (m_data (objs st ! this)), m_size (objs st ! this) - 1) Raw st)
              \<lparr>objs := (objs st)[this := (objs st ! this)\<lparr>m_size := m_size (objs st ! this) - 1\<rparr>]\<rparr>) \<and>
    (m_size (objs st ! this) \<noteq> 0 \<longrightarrow>
       slot_at (m_buffer (m_data (objs st ! this)), m_size (objs st ! this) - 1) st =
         Some (Live (last (elements st this)))) \<and>
    vec_inv (snd (PopBack this st)) this \<and>
    elements (snd (PopBack this st)) this = butlast (elements st this) \<and>
    m_data (objs (snd (PopBack this st)) ! this) = m_data (objs st ! this)"
proof -
  define b where "b = m_buffer (m_data (objs st ! this))"
  define c where "c = m_capacity (m_data (objs st ! this))"
  define xs where "xs = elements st this"
  have h: "holds st this b c xs"
    using assms unfolding b_def c_def xs_def by (rule vec_inv_holds)
  then have ob: "objs st ! this = \<lparr>m_data = \<lparr>m_buffer = b, m_capacity = c\<rparr>, m_size = length xs\<rparr>"
    and lt: "this < length (objs st)" and le: "length xs \<le> c"
    by (simp_all add: holds_def)
  show ?thesis
  proof (cases "xs = []")
    case True
    with h have "PopBack this st = (Inr (), st)" by (simp add: PopBack_empty)
    with True ob assms show ?thesis by (simp add: xs_def [symmetric])
  next
    case False
    from PopBack_nonempty [OF h False] obtain a where a: "b = Some a"
      and run: "PopBack this st =
        (Inr (), st\<lparr>heap := (heap st)(a \<mapsto> (filled xs c)[length xs - 1 := Raw]),
                   objs := (objs st)[this := (objs st ! this)\<lparr>m_size := length xs - 1\<rparr>]\<rparr>)"
      by blast
    from h a have ha: "heap st a = Some (filled xs c)" and abrk: "a < brk st"
      by (simp_all add: holds_def)
    have pos: "length xs - 1 < c" using False le by (cases xs) auto
    have fb: "(filled xs c)[length xs - 1 := Raw] = filled (butlast xs) c"
      using False le by (rule filled_butlast)
    have after: "holds (snd (PopBack this st)) this b c (butlast xs)"
      using run a ob lt le abrk pos fb by (simp add: holds_def)
    have "filled xs c ! (length xs - 1) = Live (last xs)"
      using False by (simp add: filled_def nth_append last_conv_nth)
    then have slot: "slot_at (b, length xs - 1) st = Some (Live (last xs))"
      using a ha le pos by (simp add: slot_at_def)
    have put: "put_slot (b, length xs - 1) Raw st =
        st\<lparr>heap := (heap st)(a \<mapsto> (filled xs c)[length xs - 1 := Raw])\<rparr>"
      using a ha by (simp add: put_slot_def)
    have data: "m_data (objs (snd (PopBack this st)) ! this) = m_data (objs st ! this)"
      using run lt by simp
    from run put slot False ob data holds_vec_inv [OF after] holds_elements [OF after]
    show ?thesis
      by (simp add: xs_def [symmetric])
  qed
qed

theorem PopBack_removes_last_witness:
  "vec_inv sample 0 \<and>
   elements sample 0 = [Num 1, Num 2] \<and>
   fst (PopBack 0 sample) = Inr () \<and>
   elements (snd (PopBack 0 sample)) 0 = [Num 1] \<and>
   block_of (snd (PopBack 0 sample)) 0 = [Live (Num 1), Raw, Raw] \<and>
   objs (snd (PopBack 0 sample)) = [\<lparr>m_data = \<lparr>m_buffer = Some 0, m_capacity = 3\<rparr>, m_size = 1\<rparr>]"
proof -
  have inv: "vec_inv sample 0"
    by (simp add: vec_inv_def holds_def sample_def elements_def block_of_def filled_def
        Capacity_def RawMemory_Capacity_def)
  have el: "elements sample 0 = [Num 1, Num 2]"
    by (simp add: sample_def elements_def block_of_def)
  from PopBack_removes_last [OF inv]
  have run: "PopBack 0 sample =
      (Inr (), (put_slot (Some 0, 1) Raw sample)
         \<lparr>objs := [\<lparr>m_data = \<lparr>m_buffer = Some 0, m_capacity = 3\<rparr>, m_size = 1\<rparr>]\<rparr>)"
    by (simp add: sample_def)
  show ?thesis
    unfolding run using inv el
    by (simp add: sample_def put_slot_def block_of_def elements_def)
qed

section \<open>Assigning a vector to itself\<close>

text \<open>
  Claim C9. For every stored vector, the copy assignment \<^verbatim>\<open>v = v\<close> and the move
  assignment \<^verbatim>\<open>v = std::move(v)\<close> return normally and leave the whole machine state
  as it was: the size, the capacity, the buffer and every element.
\<close>

theorem self_assignment_is_identity:
  assumes "this < length (objs st)"
  shows "Vector_copy_assign tr this this st = (Inr (), st) \<and>
         Vector_move_assign this this st = (Inr (), st)"
proof -
  have "Vector_copy_assign tr this this st = (Inr (), st)"
    using assms
    by (simp add: Vector_copy_assign_def seqn_def bnd_def this_obj_def set_size_def put_obj_def)
  moreover have "Vector_move_assign this this st = (Inr (), st)"
    using assms
    by (simp add: Vector_move_assign_def Vector_Swap_def std_swap_self)
  ultimately show ?thesis by simp
qed

theorem self_assignment_is_identity_witness:
  "(0::nat) < length (objs sample) \<and>
   Vector_copy_assign int_traits 0 0 sample = (Inr (), sample) \<and>
   Vector_move_assign 0 0 sample = (Inr (), sample)"
proof -
  have "(0::nat) < length (objs sample)" by (simp add: sample_def)
  with self_assignment_is_identity [of 0 sample int_traits] show ?thesis by simp
qed

section \<open>Removal keeps the storage\<close>

text \<open>
  Claim C10. \<^verbatim>\<open>PopBack\<close> and \<^verbatim>\<open>Erase\<close>, on any state and however they end
  (normal return, exception of a move assignment, failed assertion): nothing is allocated
  or released, every block keeps its length, and every stored vector keeps its buffer and
  its capacity. When the vector satisfies the invariant, \<^verbatim>\<open>PopBack\<close> returns normally,
  and so does \<^verbatim>\<open>Erase\<close> at a position of an element unless an operation throws;
  whenever they return normally, the only object that changed is this vector, whose size
  went down by one (\<^verbatim>\<open>PopBack\<close> on an empty vector changes nothing), the only block
  that changed is its own, and the slots before the position (the last element's slot for
  \<^verbatim>\<open>PopBack\<close>) are as before.
\<close>

theorem removal_keeps_storage:
  "storage_kept st (snd (PopBack this st)) \<and>
   storage_kept st (snd (Erase tr this pos st)) \<and>
   (\<forall>i<length (objs st).
      Capacity (objs (snd (PopBack this st)) ! i) = Capacity (objs st ! i) \<and>
      Capacity (objs (snd (Erase tr this pos st)) ! i) = Capacity (objs st ! i)) \<and>
   (vec_inv st this \<longrightarrow>
      fst (PopBack this st) = Inr () \<and>
      objs (snd (PopBack this st)) =
        (objs st)[this := (objs st ! this)\<lparr>m_size := m_size (objs st ! this) - 1\<rparr>] \<and>
      (\<forall>a. m_buffer (m_data (objs st ! this)) \<noteq> Some a \<longrightarrow>
           heap (snd (PopBack this st)) a = heap st a) \<and>
      take (m_size (objs st ! this) - 1) (block_of (snd (PopBack this st)) this) =
        take (m_size (objs st ! this) - 1) (block_of st this)) \<and>
   (vec_inv st this \<longrightarrow> element_position_of st this pos \<longrightarrow>
      returns_with (Erase tr this pos) st
        (\<lambda>r st'. r = pos \<and>
           objs st' = (objs st)[this := (objs st ! this)\<lparr>m_size := m_size (objs st ! this) - 1\<rparr>] \<and>
           (\<forall>a. m_buffer (m_data (objs st ! this)) \<noteq> Some a \<longrightarrow> heap st' a = heap st a) \<and>
           take (snd pos) (block_of st' this) = take (snd pos) (block_of st this)))"
proof -
  have p: "storage_kept st (snd (PopBack this st))"
    by (rule keeps_storageD [OF keeps_storage_PopBack])
  have e: "storage_kept st (snd (Erase tr this pos st))"
    by (rule keeps_storageD [OF keeps_storage_Erase])
  have caps: "\<forall>i<length (objs st).
      Capacity (objs (snd (PopBack this st)) ! i) = Capacity (objs st ! i) \<and>
      Capacity (objs (snd (Erase tr this pos st)) ! i) = Capacity (objs st ! i)"
    using storage_kept_Capacity [OF p] storage_kept_Capacity [OF e] by simp
  have pop: "fst (PopBack this st) = Inr () \<and>
      objs (snd (PopBack this st)) =
        (objs st)[this := (objs st ! this)\<lparr>m_size := m_size (objs st ! this) - 1\<rparr>] \<and>
      (\<forall>a. m_buffer (m_data (objs st ! this)) \<noteq> Some a \<longrightarrow>
           heap (snd (PopBack this st)) a = heap st a) \<and>
      take (m_size (objs st ! this) - 1) (block_of (snd (PopBack this st)) this) =
        take (m_size (objs st ! this) - 1) (block_of st this)"
    if inv: "vec_inv st this"
  proof -
    define b where "b = m_buffer (m_data (objs st ! this))"
    define c where "c = m_capacity (m_data (objs st ! this))"
    define xs where "xs = elements st this"
    have h: "holds st this b c xs"
      using inv unfolding b_def c_def xs_def by (rule vec_inv_holds)
    then have lt: "this < length (objs st)" and le: "length xs \<le> c"
      by (simp_all add: holds_def)
    note sz = holds_size [OF h]
    show ?thesis
    proof (cases "xs = []")
      case True
      with h have "PopBack this st = (Inr (), st)" by (simp add: PopBack_empty)
      moreover from True sz have "(objs st)[this := (objs st ! this)\<lparr>m_size := m_size (objs st ! this) - 1\<rparr>] = objs st"
        by (simp add: list_update_same_conv [OF lt])
      ultimately show ?thesis by simp
    next
      case False
      from PopBack_nonempty [OF h False] obtain a where a: "b = Some a"
        and run: "PopBack this st =
          (Inr (), st\<lparr>heap := (heap st)(a \<mapsto> (filled xs c)[length xs - 1 := Raw]),
                     objs := (objs st)[this := (objs st ! this)\<lparr>m_size := length xs - 1\<rparr>]\<rparr>)"
        by blast
      from holds_nonempty_block [OF h False] a have blk: "block_of st this = filled xs c" by simp
      have blk': "block_of (snd (PopBack this st)) this = (filled xs c)[length xs - 1 := Raw]"
        unfolding run using lt a by (simp add: block_of_def b_def [symmetric])
      show ?thesis
        unfolding blk' blk using a unfolding run sz by (simp add: b_def [symmetric])
    qed
  qed
  have erase: "returns_with (Erase tr this pos) st
        (\<lambda>r st'. r = pos \<and>
           objs st' = (objs st)[this := (objs st ! this)\<lparr>m_size := m_size (objs st ! this) - 1\<rparr>] \<and>
           (\<forall>a. m_buffer (m_data (objs st ! this)) \<noteq> Some a \<longrightarrow> heap st' a = heap st a) \<and>
           take (snd pos) (block_of st' this) = take (snd pos) (block_of st this))"
    if inv: "vec_inv st this" and ep: "element_position_of st this pos"
  proof -
    define b where "b = m_buffer (m_data (objs st ! this))"
    define c where "c = m_capacity (m_data (objs st ! this))"
    define xs where "xs = elements st this"
    define k where "k = snd pos"
    have h: "holds st this b c xs"
      using inv unfolding b_def c_def xs_def by (rule vec_inv_holds)
    then have lt: "this < length (objs st)" and le: "length xs \<le> c"
      by (simp_all add: holds_def)
    note sz = holds_size [OF h]
    from ep have pos: "pos = (b, k)" and k: "k < length xs"
      by (simp_all add: element_position_of_def b_def k_def sz [symmetric] prod_eq_iff)
    from k have ne: "xs \<noteq> []" by auto
    from holds_nonempty_block [OF h ne] obtain a where a: "b = Some a"
      and blk: "block_of st this = filled xs c" by blast
    have pre: "take k (filled (take k xs @ drop (Suc k) xs) c) = take k (filled xs c)"
      using k by (intro take_filled_prefix) simp_all
    show ?thesis
      unfolding pos
    proof (rule returns_with_mono [OF Erase_frame [OF h k, of tr]], goal_cases)
      case (1 r st')
      then have r: "r = (b, k)"
        and ob: "objs st' = (objs st)[this := (objs st ! this)\<lparr>m_size := length xs - 1\<rparr>]"
        and hp: "heap st' = (heap st)(a \<mapsto> filled (take k xs @ drop (Suc k) xs) c)"
        using a by simp_all
      have blk': "block_of st' this = filled (take k xs @ drop (Suc k) xs) c"
        using lt a ob hp by (simp add: block_of_def b_def [symmetric])
      show ?case
        unfolding blk blk' using r ob hp a pre
        by (simp add: sz b_def [symmetric])
    qed
  qed
  from p e caps pop erase show ?thesis by blast
qed

theorem removal_keeps_storage_witness:
  "vec_inv sample 0 \<and> element_position_of sample 0 (Some 0, 0) \<and> fuse sample = None \<and>
   Capacity (objs sample ! 0) = 3 \<and>
   Capacity (objs (snd (PopBack 0 sample)) ! 0) = 3 \<and>
   Capacity (objs (snd (Erase int_traits 0 (Some 0, 0) sample)) ! 0) = 3 \<and>
   storage_kept sample (snd (PopBack 0 sample)) \<and>
   storage_kept sample (snd (Erase int_traits 0 (Some 0, 0) sample)) \<and>
   fst (Erase int_traits 0 (Some 0, 0) sample) = Inr (Some 0, 0) \<and>
   objs (snd (Erase int_traits 0 (Some 0, 0) sample)) =
     [\<lparr>m_data = \<lparr>m_buffer = Some 0, m_capacity = 3\<rparr>, m_size = 1\<rparr>] \<and>
   objs (snd (PopBack 0 sample)) =
     [\<lparr>m_data = \<lparr>m_buffer = Some 0, m_capacity = 3\<rparr>, m_size = 1\<rparr>] \<and>
   block_of (snd (Erase int_traits 0 (Some 0, 0) sample)) 0 = [Live (Num 2), Raw, Raw]"
proof -
  let ?e = "Erase int_traits 0 (Some 0, 0) sample"
  have inv: "vec_inv sample 0"
    by (simp add: vec_inv_def holds_def sample_def elements_def block_of_def filled_def
        Capacity_def RawMemory_Capacity_def)
  have ep: "element_position_of sample 0 (Some 0, 0)"
    by (simp add: element_position_of_def sample_def)
  have q: "fuse sample = None" and c: "Capacity (objs sample ! 0) = 3"
    and len: "(0::nat) < length (objs sample)"
    by (simp_all add: sample_def Capacity_def RawMemory_Capacity_def)
  note T = removal_keeps_storage [of sample 0 int_traits "(Some 0, 0)"]
  from T have kp: "storage_kept sample (snd (PopBack 0 sample))"
    and ke: "storage_kept sample (snd ?e)" by blast+
  from T len c have cp: "Capacity (objs (snd (PopBack 0 sample)) ! 0) = 3"
    and ce: "Capacity (objs (snd ?e) ! 0) = 3" by auto
  from T inv have "objs (snd (PopBack 0 sample)) =
      (objs sample)[0 := (objs sample ! 0)\<lparr>m_size := m_size (objs sample ! 0) - 1\<rparr>]" by blast
  then have op: "objs (snd (PopBack 0 sample)) =
      [\<lparr>m_data = \<lparr>m_buffer = Some 0, m_capacity = 3\<rparr>, m_size = 1\<rparr>]"
    by (simp add: sample_def)
  from T inv ep have "returns_with (Erase int_traits 0 (Some 0, 0)) sample
      (\<lambda>r st'. r = (Some 0, 0) \<and>
         objs st' = (objs sample)[0 := (objs sample ! 0)\<lparr>m_size := m_size (objs sample ! 0) - 1\<rparr>] \<and>
         (\<forall>a. m_buffer (m_data (objs sample ! 0)) \<noteq> Some a \<longrightarrow> heap st' a = heap sample a) \<and>
         take (snd (Some (0::nat), 0::nat)) (block_of st' 0) = take (snd (Some (0::nat), 0::nat)) (block_of sample 0))"
    by blast
  from returns_with_quiet [OF this q] obtain r st' where run: "?e = (Inr r, st')"
    and r: "r = (Some 0, 0)"
    and ob: "objs st' = (objs sample)[0 := (objs sample ! 0)\<lparr>m_size := m_size (objs sample ! 0) - 1\<rparr>]"
    by blast
  from run r have fe: "fst ?e = Inr (Some 0, 0)" by simp
  from run ob have oe: "objs (snd ?e) = [\<lparr>m_data = \<lparr>m_buffer = Some 0, m_capacity = 3\<rparr>, m_size = 1\<rparr>]"
    by (simp add: sample_def)
  have blk: "block_of (snd ?e) 0 = [Live (Num 2), Raw, Raw]"
    by code_simp
  from inv ep q c cp ce kp ke fe oe op blk show ?thesis by blast
qed

end
